theory Spec2Isabelle
  imports Main "HOL-Library.Sublist"
begin

section \<open>Recipient normalisation\<close>

text \<open>
  All three versions of the bulk-send handler normalise a recipient with the same two
  statements:
  \<^verbatim>\<open>
  let formattedNumber = number.toString().replace(/\D/g, '');
  if (!formattedNumber.startsWith('20')) {
      formattedNumber = '20' + formattedNumber;
  }
  \<close>
  A JavaScript string is a sequence of code units; the regular expression \<open>\D\<close> matches
  every unit that is not one of the ten ASCII digits, so \<open>replace\<close> keeps exactly the
  digits, in order. Recipients are strings, for which \<open>toString\<close> is the identity.
\<close>

definition isDigit :: "char \<Rightarrow> bool" where
  "isDigit c = (c \<in> set ''0123456789'')"

definition startsWith :: "string \<Rightarrow> string \<Rightarrow> bool" where
  "startsWith s p = (take (length p) s = p)"

definition stripNonDigits :: "string \<Rightarrow> string" where
  "stripNonDigits number = filter isDigit number"

definition formatNumber :: "string \<Rightarrow> string" where
  "formatNumber number =
     (let formattedNumber = stripNonDigits number
      in if \<not> startsWith formattedNumber ''20''
         then ''20'' @ formattedNumber
         else formattedNumber)"

definition chatId_of :: "string \<Rightarrow> string" where
  "chatId_of formattedNumber = formattedNumber @ ''@c.us''"

section \<open>The session state\<close>

text \<open>
  The module-level variables of the server: \<open>client\<close>, \<open>connectionStatus\<close>,
  \<open>qrCodeData\<close> in every version, \<open>messageQueue\<close> and \<open>isProcessingQueue\<close> in the
  version with a queue. \<open>connectionStatus\<close> is a string in the source; the datatype lists
  the values the code assigns: \<open>'disconnected'\<close>, \<open>'disconnecting'\<close>, \<open>'initializing'\<close>,
  \<open>'waiting-for-qr'\<close> (the specification's AwaitingPairing), \<open>'connecting:'\<close> followed by a
  percentage, \<open>'authenticating'\<close> and \<open>'connected'\<close>.
\<close>

datatype status =
    Disconnected
  | Disconnecting
  | Initializing
  | WaitingForQr
  | Connecting string
  | Authenticating
  | Connected

text \<open>
  The reason a recipient failed is the \<open>message\<close> of the error that was thrown. The
  source's messages are Arabic sentences; each constructor stands for one of them:
  \<^item> \<open>NotRegistered\<close>: "number not registered on WhatsApp";
  \<^item> \<open>MediaNotFound\<close>: "media file does not exist";
  \<^item> \<open>UnsupportedType\<close>: "file type not supported";
  \<^item> \<open>FileTooLarge\<close>: "file too large, the maximum is 16 megabytes";
  \<^item> \<open>NoContent\<close>: "a message or a media file must be provided";
  \<^item> \<open>MediaFailed e\<close>: "failed to send media: " followed by the message of \<open>e\<close>;
  \<^item> \<open>Thrown m\<close>: an error with message \<open>m\<close> raised by the driver, the file system
    or the JavaScript runtime.
\<close>

datatype reason =
    NotRegistered
  | MediaNotFound
  | UnsupportedType
  | FileTooLarge
  | NoContent
  | MediaFailed reason
  | Thrown string

text \<open>
  An entry of \<open>messageQueue\<close>: \<open>{ number, message, mediaPaths, resolve, reject }\<close>. The pair
  \<open>resolve\<close>/\<open>reject\<close> belongs to one promise; \<open>tid\<close> identifies that promise.
  \<open>message\<close> and \<open>mediaPaths\<close> come from the request body and may be absent.
\<close>

record task =
  tid :: nat
  number :: string
  message :: "string option"
  mediaPaths :: "string list option"

text \<open>
  What a task's promise was settled with: \<open>resolve({ success: true, number })\<close> or
  \<open>reject({ success: false, number, error })\<close>.
\<close>

datatype settlement = Fulfilled string | Rejected string reason

text \<open>
  A suspended activation of \<open>processMessageQueue\<close>: either inside the \<open>try\<close> block,
  awaiting the driver for the task it took from the head of the queue, or after
  \<open>messageQueue.shift()\<close>, awaiting the three-second timer.
\<close>

datatype activation = AwaitingTask task | AwaitingDelay

text \<open>
  Besides the five variables, the state records what the claims speak about and the code
  does not store: how many \<open>Client\<close> objects were constructed, which promises were
  settled and how, the suspended activations of \<open>processMessageQueue\<close>, and the order in
  which tasks were pushed and in which their execution began. \<open>client\<close> holds the number
  of the \<open>Client\<close> object it refers to.
\<close>

record server =
  client :: "nat option"
  connectionStatus :: status
  qrCodeData :: "string option"
  messageQueue :: "task list"
  isProcessingQueue :: bool
  constructed :: nat
  settled :: "(nat \<times> settlement) list"
  loops :: "activation list"
  enqueued :: "nat list"
  started :: "nat list"

text \<open>The state when the module has been loaded, before \<open>initializeWhatsApp()\<close> runs.\<close>

definition initial_server :: server where
  "initial_server =
     \<lparr> client = None, connectionStatus = Disconnected, qrCodeData = None,
       messageQueue = [], isProcessingQueue = False, constructed = 0, settled = [],
       loops = [], enqueued = [], started = [] \<rparr>"

subsection \<open>Lifecycle operations\<close>

text \<open>
  \<open>initializeWhatsApp\<close> (the same in every version up to the handlers it registers):
  it sets the status, constructs a \<open>Client\<close> and calls \<open>client.initialize()\<close> inside
  \<open>try\<close>; \<open>init_throws\<close> says whether that call throws synchronously. There is no test
  of the current status before the construction.
\<close>

definition initializeWhatsApp :: "bool \<Rightarrow> server \<Rightarrow> server" where
  "initializeWhatsApp init_throws s =
     (let s1 = s\<lparr> connectionStatus := Initializing,
                   client := Some (constructed s),
                   constructed := Suc (constructed s) \<rparr>
      in if init_throws then s1\<lparr> connectionStatus := Disconnected \<rparr> else s1)"

text \<open>
  \<open>destroyClient\<close>: \<open>destroy_ok\<close> says whether \<open>client.destroy()\<close> returns; when it
  throws, the assignment \<open>client = null\<close> is skipped and the error is logged.
\<close>

definition destroyClient :: "bool \<Rightarrow> server \<Rightarrow> server" where
  "destroyClient destroy_ok s =
     (let s1 = s\<lparr> connectionStatus := Disconnecting \<rparr>;
          s2 = (if client s1 \<noteq> None \<and> destroy_ok then s1\<lparr> client := None \<rparr> else s1)
      in s2\<lparr> connectionStatus := Disconnected, qrCodeData := None \<rparr>)"

text \<open>The handlers registered on the client, one definition per event.\<close>

definition on_qr :: "string \<Rightarrow> server \<Rightarrow> server" where
  "on_qr qr s = s\<lparr> connectionStatus := WaitingForQr, qrCodeData := Some qr \<rparr>"

definition on_loading_screen :: "string \<Rightarrow> server \<Rightarrow> server" where
  "on_loading_screen percent s = s\<lparr> connectionStatus := Connecting percent \<rparr>"

definition on_ready :: "server \<Rightarrow> server" where
  "on_ready s = s\<lparr> connectionStatus := Connected, qrCodeData := None \<rparr>"

definition on_authenticated :: "server \<Rightarrow> server" where
  "on_authenticated s = s\<lparr> connectionStatus := Authenticating \<rparr>"

text \<open>
  \<open>auth_failure\<close>: the version with a queue only sets the status; the first version of
  \<open>server.js\<close> also clears the stored credentials and initialises again (\<open>clear_ok\<close>: the
  removal of the directories did not throw; when it throws, the rest is skipped).
\<close>

definition on_auth_failure_queue :: "server \<Rightarrow> server" where
  "on_auth_failure_queue s = s\<lparr> connectionStatus := Disconnected \<rparr>"

definition on_auth_failure_loop :: "bool \<Rightarrow> bool \<Rightarrow> server \<Rightarrow> server" where
  "on_auth_failure_loop clear_ok init_throws s =
     (let s1 = s\<lparr> connectionStatus := Disconnected \<rparr>
      in if clear_ok then initializeWhatsApp init_throws s1 else s1)"

text \<open>
  \<open>disconnected\<close>: destroy the client, clear the credentials, initialise again. The
  version with a queue assigns a new empty array to \<open>messageQueue\<close> in between (its
  \<open>clearAuthData\<close> catches every error). No \<open>resolve\<close> or \<open>reject\<close> is called.
\<close>

definition on_disconnected_loop :: "bool \<Rightarrow> bool \<Rightarrow> bool \<Rightarrow> server \<Rightarrow> server" where
  "on_disconnected_loop destroy_ok clear_ok init_throws s =
     (let s1 = destroyClient destroy_ok s
      in if clear_ok then initializeWhatsApp init_throws s1 else s1)"

definition on_disconnected_queue :: "bool \<Rightarrow> bool \<Rightarrow> server \<Rightarrow> server" where
  "on_disconnected_queue destroy_ok init_throws s =
     (let s1 = destroyClient destroy_ok s;
          s2 = s1\<lparr> messageQueue := [] \<rparr>
      in initializeWhatsApp init_throws s2)"

text \<open>\<open>GET /status\<close> answers with the two variables as they are.\<close>

definition getStatus :: "server \<Rightarrow> status \<times> string option" where
  "getStatus s = (connectionStatus s, qrCodeData s)"

section \<open>The connection driver and the file system\<close>

text \<open>
  The driver is the \<open>Client\<close> of the chat library, which is not part of the repository.
  The server calls two of its methods, \<open>isRegisteredUser(chatId)\<close> and
  \<open>sendMessage(chatId, content, options)\<close>. Both are asynchronous and may reject; what
  they answer may depend on everything that happened before. The model takes the driver
  as a parameter: two functions over a driver state \<open>'d\<close> of any type, returning the
  answer (\<open>Inl\<close> the message of the error) and the next driver state.
\<close>

datatype content = TextBody string | MessageMedia string string string

record send_opts =
  sendMediaAsDocument :: bool
  caption :: "string option"

record 'd driver =
  isRegisteredUser :: "'d \<Rightarrow> string \<Rightarrow> (string + bool) \<times> 'd"
  sendMessage :: "'d \<Rightarrow> string \<Rightarrow> content \<Rightarrow> send_opts option \<Rightarrow> (string + unit) \<times> 'd"

text \<open>Every call of a driver method is appended to a trace, in the order of the calls.\<close>

datatype call =
    IsRegisteredUser string
  | SendMessage string content "send_opts option"

record 'd world =
  drv :: 'd
  trace :: "call list"

definition call_isRegisteredUser ::
  "'d driver \<Rightarrow> 'd world \<Rightarrow> string \<Rightarrow> (string + bool) \<times> 'd world" where
  "call_isRegisteredUser D w chatId =
     (case isRegisteredUser D (drv w) chatId of
        (r, d') \<Rightarrow> (r, \<lparr> drv = d', trace = trace w @ [IsRegisteredUser chatId] \<rparr>))"

definition call_sendMessage ::
  "'d driver \<Rightarrow> 'd world \<Rightarrow> string \<Rightarrow> content \<Rightarrow> send_opts option
     \<Rightarrow> (string + unit) \<times> 'd world" where
  "call_sendMessage D w chatId c opts =
     (case sendMessage D (drv w) chatId c opts of
        (r, d') \<Rightarrow> (r, \<lparr> drv = d', trace = trace w @ [SendMessage chatId c opts] \<rparr>))"

text \<open>
  The file system and the MIME table, as the handlers use them:
  \<open>path.join(process.cwd(), mediaPath)\<close>, \<open>fs.existsSync\<close>, \<open>mime.lookup\<close> (\<open>None\<close> is
  JavaScript's \<open>false\<close>), reading the file as base64 (\<open>Inl\<close> the message of the error),
  \<open>fs.statSync(...).size\<close> and \<open>path.basename\<close>. They are parameters too, fixed during
  one request.
\<close>

record files =
  fullPath_of :: "string \<Rightarrow> string"
  existsSync :: "string \<Rightarrow> bool"
  mime_lookup :: "string \<Rightarrow> string option"
  readBase64 :: "string \<Rightarrow> string + string"
  statSize :: "string \<Rightarrow> string + nat"
  basename :: "string \<Rightarrow> string"

text \<open>
  JavaScript truthiness of the two optional request fields: \<open>message\<close> is truthy when it
  is a non-empty string (\<open>truthy_text\<close> gives that string);
  \<open>mediaPaths && mediaPaths.length > 0\<close>. \<open>send_text\<close> is \<open>client.sendMessage(chatId, message)\<close>,
  the call without options.
\<close>

definition truthy_text :: "string option \<Rightarrow> string option" where
  "truthy_text m = (case m of None \<Rightarrow> None | Some t \<Rightarrow> if t = [] then None else Some t)"

definition truthy :: "string option \<Rightarrow> bool" where
  "truthy m = (truthy_text m \<noteq> None)"

definition send_text ::
  "'d driver \<Rightarrow> 'd world \<Rightarrow> string \<Rightarrow> string \<Rightarrow> (reason + unit) \<times> 'd world" where
  "send_text D w chatId t =
     (case call_sendMessage D w chatId (TextBody t) None of
        (Inl e, w') \<Rightarrow> (Inl (Thrown e), w')
      | (Inr u, w') \<Rightarrow> (Inr (), w'))"

definition has_media :: "string list option \<Rightarrow> bool" where
  "has_media ps = (case ps of None \<Rightarrow> False | Some l \<Rightarrow> l \<noteq> [])"

definition media_list :: "string list option \<Rightarrow> string list" where
  "media_list ps = (case ps of None \<Rightarrow> [] | Some l \<Rightarrow> l)"

definition isVideo :: "string \<Rightarrow> bool" where
  "isVideo mimeType = startsWith mimeType ''video/''"

text \<open>
  The answer of \<open>POST /send-bulk-messages\<close>. \<open>Awaiting promises\<close> is no answer yet: the
  handler is suspended at \<open>await Promise.allSettled(promises)\<close>.
\<close>

record results =
  success :: "string list"
  failed :: "(string \<times> reason) list"

datatype http_error = NotConnected | NotInitialized | InvalidNumbers | MissingContent

datatype response =
    Status400 http_error
  | Status500 string
  | Json results
  | Awaiting "nat list"

definition empty_results :: results where
  "empty_results = \<lparr> success = [], failed = [] \<rparr>"

section \<open>Sending to one recipient\<close>

subsection \<open>First version of \<open>server.js\<close>: a loop in the request handler\<close>

text \<open>
  The body of the inner \<open>try\<close> for one media path. Attachments are sent with the option
  \<open>sendMediaAsDocument\<close> alone; the text went out before, as a message of its own.
\<close>

definition send_media_loop ::
  "'d driver \<Rightarrow> files \<Rightarrow> 'd world \<Rightarrow> string \<Rightarrow> string \<Rightarrow> (reason + unit) \<times> 'd world" where
  "send_media_loop D E w chatId mediaPath =
     (let fullPath = fullPath_of E mediaPath
      in if \<not> existsSync E fullPath then (Inl MediaNotFound, w)
         else (case mime_lookup E fullPath of
                 None \<Rightarrow> (Inl UnsupportedType, w)
               | Some mimeType \<Rightarrow>
                   (case readBase64 E fullPath of
                      Inl e \<Rightarrow> (Inl (Thrown e), w)
                    | Inr base64Data \<Rightarrow>
                        (case call_sendMessage D w chatId
                                (MessageMedia mimeType base64Data (basename E fullPath))
                                (Some \<lparr> sendMediaAsDocument = isVideo mimeType,
                                        caption = None \<rparr>) of
                           (Inl e, w') \<Rightarrow> (Inl (Thrown e), w')
                         | (Inr u, w') \<Rightarrow> (Inr (), w')))))"

text \<open>
  The \<open>for\<close> over \<open>mediaPaths\<close>: the inner \<open>catch\<close> wraps the first error and throws it,
  which ends the loop.
\<close>

fun send_all_media_loop ::
  "'d driver \<Rightarrow> files \<Rightarrow> 'd world \<Rightarrow> string \<Rightarrow> string list \<Rightarrow> (reason + unit) \<times> 'd world" where
  "send_all_media_loop D E w chatId [] = (Inr (), w)"
| "send_all_media_loop D E w chatId (mediaPath # rest) =
     (case send_media_loop D E w chatId mediaPath of
        (Inl e, w') \<Rightarrow> (Inl (MediaFailed e), w')
      | (Inr u, w') \<Rightarrow> send_all_media_loop D E w' chatId rest)"

text \<open>
  The outer \<open>try\<close> for one element of \<open>numbers\<close>: \<open>Inr\<close> the normalised number that is
  pushed to \<open>results.success\<close>, \<open>Inl\<close> the reason that is pushed to \<open>results.failed\<close>.
\<close>

definition process_number_loop ::
  "'d driver \<Rightarrow> files \<Rightarrow> string option \<Rightarrow> string list option \<Rightarrow> 'd world \<Rightarrow> string
     \<Rightarrow> (reason + string) \<times> 'd world" where
  "process_number_loop D E msg paths w num =
     (let formattedNumber = formatNumber num;
          chatId = chatId_of formattedNumber
      in case call_isRegisteredUser D w chatId of
           (Inl e, w1) \<Rightarrow> (Inl (Thrown e), w1)
         | (Inr False, w1) \<Rightarrow> (Inl NotRegistered, w1)
         | (Inr True, w1) \<Rightarrow>
             (case (case truthy_text msg of
                      Some t \<Rightarrow> send_text D w1 chatId t
                    | None \<Rightarrow> (Inr (), w1)) of
                (Inl e, w2) \<Rightarrow> (Inl e, w2)
              | (Inr u, w2) \<Rightarrow>
                  (case (if has_media paths
                         then send_all_media_loop D E w2 chatId (media_list paths)
                         else (Inr (), w2)) of
                     (Inl e, w3) \<Rightarrow> (Inl e, w3)
                   | (Inr u', w3) \<Rightarrow> (Inr formattedNumber, w3))))"

subsection \<open>The unnamed version: a loop that sends the text as caption\<close>

definition send_media_stream ::
  "'d driver \<Rightarrow> files \<Rightarrow> string option \<Rightarrow> 'd world \<Rightarrow> string \<Rightarrow> string
     \<Rightarrow> (reason + unit) \<times> 'd world" where
  "send_media_stream D E msg w chatId mediaPath =
     (let fullPath = fullPath_of E mediaPath
      in if \<not> existsSync E fullPath then (Inl MediaNotFound, w)
         else (case mime_lookup E fullPath of
                 None \<Rightarrow> (Inl UnsupportedType, w)
               | Some mimeType \<Rightarrow>
                   (case statSize E fullPath of
                      Inl e \<Rightarrow> (Inl (Thrown e), w)
                    | Inr sz \<Rightarrow>
                        if sz > 16 * 1024 * 1024 then (Inl FileTooLarge, w)
                        else (case readBase64 E fullPath of
                                Inl e \<Rightarrow> (Inl (Thrown e), w)
                              | Inr base64Data \<Rightarrow>
                                  (case call_sendMessage D w chatId
                                          (MessageMedia mimeType base64Data (basename E fullPath))
                                          (Some \<lparr> sendMediaAsDocument = isVideo mimeType,
                                                  caption = msg \<rparr>) of
                                     (Inl e, w') \<Rightarrow> (Inl (Thrown e), w')
                                   | (Inr u, w') \<Rightarrow> (Inr (), w'))))))"

fun send_all_media_stream ::
  "'d driver \<Rightarrow> files \<Rightarrow> string option \<Rightarrow> 'd world \<Rightarrow> string \<Rightarrow> string list
     \<Rightarrow> (reason + unit) \<times> 'd world" where
  "send_all_media_stream D E msg w chatId [] = (Inr (), w)"
| "send_all_media_stream D E msg w chatId (mediaPath # rest) =
     (case send_media_stream D E msg w chatId mediaPath of
        (Inl e, w') \<Rightarrow> (Inl (MediaFailed e), w')
      | (Inr u, w') \<Rightarrow> send_all_media_stream D E msg w' chatId rest)"

definition process_number_stream ::
  "'d driver \<Rightarrow> files \<Rightarrow> string option \<Rightarrow> string list option \<Rightarrow> 'd world \<Rightarrow> string
     \<Rightarrow> (reason + string) \<times> 'd world" where
  "process_number_stream D E msg paths w num =
     (let formattedNumber = formatNumber num;
          chatId = chatId_of formattedNumber
      in case call_isRegisteredUser D w chatId of
           (Inl e, w1) \<Rightarrow> (Inl (Thrown e), w1)
         | (Inr False, w1) \<Rightarrow> (Inl NotRegistered, w1)
         | (Inr True, w1) \<Rightarrow>
             (case (if has_media paths
                    then send_all_media_stream D E msg w1 chatId (media_list paths)
                    else (case truthy_text msg of
                            Some t \<Rightarrow> send_text D w1 chatId t
                          | None \<Rightarrow> (Inl NoContent, w1))) of
                (Inl e, w2) \<Rightarrow> (Inl e, w2)
              | (Inr u, w2) \<Rightarrow> (Inr formattedNumber, w2)))"

subsection \<open>Second version of \<open>server.js\<close>: executing a task of the queue\<close>

text \<open>
  The media loop of \<open>processMessageQueue\<close>. There is no test of \<open>mimeType\<close>: when
  \<open>mime.lookup\<close> answers \<open>false\<close>, evaluating \<open>mimeType.startsWith('video/')\<close> throws a
  \<open>TypeError\<close> (after the file has been read), and no error is wrapped. Every attachment is
  sent with \<open>caption: message\<close>.
\<close>

definition send_media_queue ::
  "'d driver \<Rightarrow> files \<Rightarrow> string option \<Rightarrow> 'd world \<Rightarrow> string \<Rightarrow> string
     \<Rightarrow> (reason + unit) \<times> 'd world" where
  "send_media_queue D E msg w chatId mediaPath =
     (let fullPath = fullPath_of E mediaPath
      in if \<not> existsSync E fullPath then (Inl MediaNotFound, w)
         else (case readBase64 E fullPath of
                 Inl e \<Rightarrow> (Inl (Thrown e), w)
               | Inr base64Data \<Rightarrow>
                   (case mime_lookup E fullPath of
                      None \<Rightarrow> (Inl (Thrown ''mimeType.startsWith is not a function''), w)
                    | Some mimeType \<Rightarrow>
                        (case call_sendMessage D w chatId
                                (MessageMedia mimeType base64Data (basename E fullPath))
                                (Some \<lparr> sendMediaAsDocument = isVideo mimeType,
                                        caption = msg \<rparr>) of
                           (Inl e, w') \<Rightarrow> (Inl (Thrown e), w')
                         | (Inr u, w') \<Rightarrow> (Inr (), w')))))"

fun send_all_media_queue ::
  "'d driver \<Rightarrow> files \<Rightarrow> string option \<Rightarrow> 'd world \<Rightarrow> string \<Rightarrow> string list
     \<Rightarrow> (reason + unit) \<times> 'd world" where
  "send_all_media_queue D E msg w chatId [] = (Inr (), w)"
| "send_all_media_queue D E msg w chatId (mediaPath # rest) =
     (case send_media_queue D E msg w chatId mediaPath of
        (Inl e, w') \<Rightarrow> (Inl e, w')
      | (Inr u, w') \<Rightarrow> send_all_media_queue D E msg w' chatId rest)"

text \<open>
  The \<open>try\<close>/\<open>catch\<close> of the \<open>while\<close> body for the task at the head of the queue: the
  result is what the task's promise is settled with. \<open>number\<close> was normalised when the
  task was created. A task with neither media nor text is resolved with nothing sent.
\<close>

definition execute_task ::
  "'d driver \<Rightarrow> files \<Rightarrow> 'd world \<Rightarrow> task \<Rightarrow> settlement \<times> 'd world" where
  "execute_task D E w t =
     (let chatId = chatId_of (number t)
      in case call_isRegisteredUser D w chatId of
           (Inl e, w1) \<Rightarrow> (Rejected (number t) (Thrown e), w1)
         | (Inr False, w1) \<Rightarrow> (Rejected (number t) NotRegistered, w1)
         | (Inr True, w1) \<Rightarrow>
             (case (if has_media (mediaPaths t)
                    then send_all_media_queue D E (message t) w1 chatId
                           (media_list (mediaPaths t))
                    else (case truthy_text (message t) of
                            Some m \<Rightarrow> send_text D w1 chatId m
                          | None \<Rightarrow> (Inr (), w1))) of
                (Inl e, w2) \<Rightarrow> (Rejected (number t) e, w2)
              | (Inr u, w2) \<Rightarrow> (Fulfilled (number t), w2)))"

section \<open>The handler of \<open>POST /send-bulk-messages\<close>\<close>

text \<open>
  \<open>numbers\<close> is \<open>None\<close> when the field is absent or not an array. In the two versions
  with a loop, a failed recipient is pushed as \<open>{ number, reason }\<close> with \<open>number\<close> the
  loop variable, the element of \<open>numbers\<close> as it was submitted (\<open>formattedNumber\<close> is
  declared inside the \<open>try\<close> block); a successful one is pushed as \<open>formattedNumber\<close>.
  The timers between the sends are left out: they change no variable.
\<close>

subsection \<open>First version of \<open>server.js\<close>\<close>

fun numbers_loop ::
  "'d driver \<Rightarrow> files \<Rightarrow> string option \<Rightarrow> string list option \<Rightarrow> 'd world \<Rightarrow> results
     \<Rightarrow> string list \<Rightarrow> results \<times> 'd world" where
  "numbers_loop D E msg paths w res [] = (res, w)"
| "numbers_loop D E msg paths w res (num # rest) =
     (case process_number_loop D E msg paths w num of
        (Inr formattedNumber, w') \<Rightarrow>
          numbers_loop D E msg paths w' (res\<lparr> success := success res @ [formattedNumber] \<rparr>) rest
      | (Inl e, w') \<Rightarrow>
          numbers_loop D E msg paths w' (res\<lparr> failed := failed res @ [(num, e)] \<rparr>) rest)"

definition sendBulkMessages_loop ::
  "'d driver \<Rightarrow> files \<Rightarrow> server \<Rightarrow> 'd world \<Rightarrow> string list option \<Rightarrow> string option
     \<Rightarrow> string list option \<Rightarrow> response \<times> 'd world" where
  "sendBulkMessages_loop D E s w numbers msg paths =
     (if client s = None \<or> connectionStatus s \<noteq> Connected then (Status400 NotConnected, w)
      else (case numbers of
              None \<Rightarrow> (Status400 InvalidNumbers, w)
            | Some ns \<Rightarrow>
                if ns = [] then (Status400 InvalidNumbers, w)
                else if \<not> truthy msg \<and> \<not> has_media paths then (Status400 MissingContent, w)
                else (case numbers_loop D E msg paths w empty_results ns of
                        (res, w') \<Rightarrow> (Json res, w'))))"

subsection \<open>The unnamed version\<close>

fun numbers_stream ::
  "'d driver \<Rightarrow> files \<Rightarrow> string option \<Rightarrow> string list option \<Rightarrow> 'd world \<Rightarrow> results
     \<Rightarrow> string list \<Rightarrow> results \<times> 'd world" where
  "numbers_stream D E msg paths w res [] = (res, w)"
| "numbers_stream D E msg paths w res (num # rest) =
     (case process_number_stream D E msg paths w num of
        (Inr formattedNumber, w') \<Rightarrow>
          numbers_stream D E msg paths w' (res\<lparr> success := success res @ [formattedNumber] \<rparr>) rest
      | (Inl e, w') \<Rightarrow>
          numbers_stream D E msg paths w' (res\<lparr> failed := failed res @ [(num, e)] \<rparr>) rest)"

definition sendBulkMessages_stream ::
  "'d driver \<Rightarrow> files \<Rightarrow> server \<Rightarrow> 'd world \<Rightarrow> string list option \<Rightarrow> string option
     \<Rightarrow> string list option \<Rightarrow> response \<times> 'd world" where
  "sendBulkMessages_stream D E s w numbers msg paths =
     (if client s = None then (Status400 NotInitialized, w)
      else (case numbers of
              None \<Rightarrow> (Status400 InvalidNumbers, w)
            | Some ns \<Rightarrow>
                if ns = [] then (Status400 InvalidNumbers, w)
                else (case numbers_stream D E msg paths w empty_results ns of
                        (res, w') \<Rightarrow> (Json res, w'))))"

subsection \<open>Second version of \<open>server.js\<close>: the queue\<close>

text \<open>
  The callback of \<open>numbers.map\<close>: normalise, create a promise and push the task. The
  promise is new; it is numbered by the count of the tasks pushed so far.
\<close>

definition enqueue_number ::
  "string option \<Rightarrow> string list option \<Rightarrow> server \<Rightarrow> string \<Rightarrow> server" where
  "enqueue_number msg paths s num =
     (let t = \<lparr> tid = length (enqueued s), number = formatNumber num,
                 message = msg, mediaPaths = paths \<rparr>
      in s\<lparr> messageQueue := messageQueue s @ [t], enqueued := enqueued s @ [tid t] \<rparr>)"

definition enqueue_all ::
  "string option \<Rightarrow> string list option \<Rightarrow> server \<Rightarrow> string list \<Rightarrow> server" where
  "enqueue_all msg paths s ns = foldl (enqueue_number msg paths) s ns"

text \<open>
  \<open>processMessageQueue\<close> when nothing else runs between its awaits: the \<open>while\<close> loop
  takes the head, executes it, settles its promise, shifts the queue, and goes on until
  the queue is empty. \<open>drain_queue\<close> is the loop, returning the settlements in order.
\<close>

fun drain_queue ::
  "'d driver \<Rightarrow> files \<Rightarrow> 'd world \<Rightarrow> task list \<Rightarrow> (nat \<times> settlement) list \<times> 'd world" where
  "drain_queue D E w [] = ([], w)"
| "drain_queue D E w (t # rest) =
     (case execute_task D E w t of
        (st, w') \<Rightarrow>
          (case drain_queue D E w' rest of
             (log, w'') \<Rightarrow> ((tid t, st) # log, w'')))"

definition processMessageQueue_run ::
  "'d driver \<Rightarrow> files \<Rightarrow> server \<Rightarrow> 'd world \<Rightarrow> server \<times> 'd world" where
  "processMessageQueue_run D E s w =
     (if isProcessingQueue s \<or> messageQueue s = [] then (s, w)
      else (case drain_queue D E w (messageQueue s) of
              (log, w') \<Rightarrow>
                (s\<lparr> messageQueue := [], isProcessingQueue := False,
                    settled := settled s @ log,
                    started := started s @ map tid (messageQueue s) \<rparr>, w')))"

text \<open>
  \<open>Promise.allSettled(promises)\<close> yields once every promise of the batch is settled
  (\<open>None\<close>: some promise is not settled yet). The \<open>forEach\<close> that follows pushes each
  settlement to one of the two arrays.
\<close>

fun allSettled :: "(nat \<times> settlement) list \<Rightarrow> nat list \<Rightarrow> settlement list option" where
  "allSettled log [] = Some []"
| "allSettled log (i # rest) =
     (case map_of log i of
        None \<Rightarrow> None
      | Some st \<Rightarrow>
          (case allSettled log rest of
             None \<Rightarrow> None
           | Some sts \<Rightarrow> Some (st # sts)))"

fun collect_results :: "results \<Rightarrow> settlement list \<Rightarrow> results" where
  "collect_results res [] = res"
| "collect_results res (Fulfilled n # rest) =
     collect_results (res\<lparr> success := success res @ [n] \<rparr>) rest"
| "collect_results res (Rejected n e # rest) =
     collect_results (res\<lparr> failed := failed res @ [(n, e)] \<rparr>) rest"

text \<open>
  The end of the handler, from \<open>await Promise.allSettled(promises)\<close> on, in the state
  \<open>s\<close> of that moment: while a promise of the batch is not settled the handler stays
  suspended, otherwise it answers with the report.
\<close>

definition sendBulkMessages_queue_resume :: "server \<Rightarrow> nat list \<Rightarrow> response" where
  "sendBulkMessages_queue_resume s promises =
     (case allSettled (settled s) promises of
        None \<Rightarrow> Awaiting promises
      | Some sts \<Rightarrow> Json (collect_results empty_results sts))"

text \<open>
  The handler, from the moment \<open>await ensureConnection()\<close> has settled: \<open>ensured\<close> is
  \<open>Inl\<close> the message when it rejected (the 30-second timeout; the outer \<open>catch\<close> answers
  500), and otherwise \<open>Inr\<close> the truth value of \<open>client?.isReady\<close>. The only validation
  is the one of \<open>numbers\<close>. This definition is the handler when nothing else runs between
  the awaits: the call of \<open>processMessageQueue()\<close> is \<open>processMessageQueue_run\<close>, and the
  result is the handler's answer, or \<open>Awaiting\<close> when the call returned at once because
  another activation holds the flag; the answer then comes later, from
  \<open>sendBulkMessages_queue_resume\<close> in the state in which the promises are settled.
\<close>

definition sendBulkMessages_queue ::
  "'d driver \<Rightarrow> files \<Rightarrow> string + bool \<Rightarrow> server \<Rightarrow> 'd world \<Rightarrow> string list option
     \<Rightarrow> string option \<Rightarrow> string list option \<Rightarrow> response \<times> server \<times> 'd world" where
  "sendBulkMessages_queue D E ensured s w numbers msg paths =
     (case ensured of
        Inl e \<Rightarrow> (Status500 e, s, w)
      | Inr isReady \<Rightarrow>
          if \<not> isReady then (Status400 NotInitialized, s, w)
          else (case numbers of
                  None \<Rightarrow> (Status400 InvalidNumbers, s, w)
                | Some ns \<Rightarrow>
                    if ns = [] then (Status400 InvalidNumbers, s, w)
                    else (let s1 = enqueue_all msg paths s ns;
                              promises = [length (enqueued s) ..< length (enqueued s1)]
                          in case processMessageQueue_run D E s1 w of
                               (s2, w2) \<Rightarrow>
                                 (sendBulkMessages_queue_resume s2 promises, s2, w2))))"

section \<open>The queue between awaits\<close>

text \<open>
  JavaScript runs one piece of code at a time, and another handler can run only while a
  function is suspended at an \<open>await\<close>. \<open>processMessageQueue\<close> is cut at its awaits into
  pieces, each a function on the state:
  \<^item> \<open>processMessageQueue_call\<close>: the guard, the assignment of the flag, and the first
    pass through \<open>loop_head\<close>;
  \<^item> \<open>loop_head\<close>: the test of the \<open>while\<close>, then either \<open>task = messageQueue[0]\<close> and
    the suspension at the first driver call, or \<open>isProcessingQueue = false\<close> and the end
    of the activation;
  \<^item> \<open>task_done\<close>: the driver has answered; the task's promise is settled (\<open>st\<close> is
    whatever the execution produced), \<open>messageQueue.shift()\<close> removes the head of the
    array that \<open>messageQueue\<close> refers to now, and the activation awaits the timer;
  \<^item> \<open>delay_done\<close>: the timer has fired, the activation is back at \<open>loop_head\<close>.
  An activation that is suspended stays in \<open>loops\<close>; \<open>i\<close> is its position there.
\<close>

definition loop_head :: "server \<Rightarrow> server" where
  "loop_head s =
     (case messageQueue s of
        [] \<Rightarrow> s\<lparr> isProcessingQueue := False \<rparr>
      | t # rest \<Rightarrow> s\<lparr> loops := loops s @ [AwaitingTask t], started := started s @ [tid t] \<rparr>)"

definition processMessageQueue_call :: "server \<Rightarrow> server" where
  "processMessageQueue_call s =
     (if isProcessingQueue s \<or> messageQueue s = [] then s
      else loop_head (s\<lparr> isProcessingQueue := True \<rparr>))"

definition task_done :: "nat \<Rightarrow> settlement \<Rightarrow> server \<Rightarrow> server" where
  "task_done i st s =
     (if i < length (loops s)
      then (case loops s ! i of
              AwaitingTask t \<Rightarrow>
                s\<lparr> settled := settled s @ [(tid t, st)],
                    messageQueue := tl (messageQueue s),
                    loops := (loops s)[i := AwaitingDelay] \<rparr>
            | AwaitingDelay \<Rightarrow> s)
      else s)"

definition delay_done :: "nat \<Rightarrow> server \<Rightarrow> server" where
  "delay_done i s =
     (if i < length (loops s)
      then (case loops s ! i of
              AwaitingDelay \<Rightarrow> loop_head (s\<lparr> loops := take i (loops s) @ drop (Suc i) (loops s) \<rparr>)
            | AwaitingTask t \<Rightarrow> s)
      else s)"

text \<open>
  The \<open>ready\<close> handler of the version with a queue ends with a call of
  \<open>processMessageQueue()\<close>.
\<close>

definition on_ready_queue :: "server \<Rightarrow> server" where
  "on_ready_queue s = processMessageQueue_call (on_ready s)"

text \<open>
  The states the server can be in. Every rule is one piece of code that runs without
  suspension:
  \<^item> the lifecycle: \<open>initializeWhatsApp\<close>; \<open>destroyClient\<close>, whose first assignment
    \<open>connectionStatus = 'disconnecting'\<close> is visible while \<open>client.destroy()\<close> is awaited;
    the handlers of \<open>qr\<close>, \<open>loading_screen\<close>, \<open>ready\<close> and \<open>authenticated\<close>; the
    assignment \<open>connectionStatus = 'disconnected'\<close> of the \<open>auth_failure\<close> handler and of
    the rejection handler of \<open>client.initialize()\<close>; the assignments
    \<open>connectionStatus = 'initializing'\<close> and \<open>qrCodeData = null\<close> of \<open>POST /disconnect\<close>;
  \<^item> the queue: a request pushes a task, somebody calls \<open>processMessageQueue()\<close> (the
    request handler, or the \<open>ready\<close> handler after \<open>on_ready\<close>), an activation goes on
    after an await, a \<open>disconnected\<close> event or \<open>POST /disconnect\<close> assigns
    \<open>messageQueue = []\<close>.
  The handlers of \<open>disconnected\<close> and \<open>auth_failure\<close>, \<open>ensureConnection\<close> and
  \<open>POST /disconnect\<close> are sequences of these pieces with awaits in between.
\<close>

inductive reachable :: "server \<Rightarrow> bool" where
  r_init: "reachable initial_server"
| r_initialize: "reachable s \<Longrightarrow> reachable (initializeWhatsApp init_throws s)"
| r_destroying: "reachable s \<Longrightarrow> reachable (s\<lparr> connectionStatus := Disconnecting \<rparr>)"
| r_destroy: "reachable s \<Longrightarrow> reachable (destroyClient destroy_ok s)"
| r_qr: "reachable s \<Longrightarrow> reachable (on_qr qr s)"
| r_loading: "reachable s \<Longrightarrow> reachable (on_loading_screen percent s)"
| r_ready: "reachable s \<Longrightarrow> reachable (on_ready s)"
| r_authenticated: "reachable s \<Longrightarrow> reachable (on_authenticated s)"
| r_failed: "reachable s \<Longrightarrow> reachable (on_auth_failure_queue s)"
| r_initializing: "reachable s \<Longrightarrow> reachable (s\<lparr> connectionStatus := Initializing \<rparr>)"
| r_qr_null: "reachable s \<Longrightarrow> reachable (s\<lparr> qrCodeData := None \<rparr>)"
| r_push: "reachable s \<Longrightarrow> reachable (enqueue_number msg paths s num)"
| r_call: "reachable s \<Longrightarrow> reachable (processMessageQueue_call s)"
| r_task: "reachable s \<Longrightarrow> reachable (task_done i st s)"
| r_delay: "reachable s \<Longrightarrow> reachable (delay_done i s)"
| r_clear: "reachable s \<Longrightarrow> reachable (s\<lparr> messageQueue := [] \<rparr>)"

text \<open>The tasks being executed against the driver: one per activation inside \<open>try\<close>.\<close>

fun in_flight :: "activation list \<Rightarrow> task list" where
  "in_flight [] = []"
| "in_flight (AwaitingTask t # rest) = t # in_flight rest"
| "in_flight (AwaitingDelay # rest) = in_flight rest"

text \<open>
  The beginning of the handler, up to its suspension at
  \<open>await Promise.allSettled(promises)\<close>: the validation, the pushes and the call of
  \<open>processMessageQueue()\<close>, which runs up to its first await. Together with
  \<open>sendBulkMessages_queue_resume\<close> this is the handler between awaits.
\<close>

definition sendBulkMessages_queue_begin ::
  "string + bool \<Rightarrow> server \<Rightarrow> string list option \<Rightarrow> string option
     \<Rightarrow> string list option \<Rightarrow> response \<times> server" where
  "sendBulkMessages_queue_begin ensured s numbers msg paths =
     (case ensured of
        Inl e \<Rightarrow> (Status500 e, s)
      | Inr isReady \<Rightarrow>
          if \<not> isReady then (Status400 NotInitialized, s)
          else (case numbers of
                  None \<Rightarrow> (Status400 InvalidNumbers, s)
                | Some ns \<Rightarrow>
                    if ns = [] then (Status400 InvalidNumbers, s)
                    else (let s1 = enqueue_all msg paths s ns;
                              promises = [length (enqueued s) ..< length (enqueued s1)]
                          in (Awaiting promises, processMessageQueue_call s1))))"

text \<open>
  \<open>reachable_from s0 s\<close>: the server can get from \<open>s0\<close> to \<open>s\<close>, by the same pieces of
  code as in \<open>reachable\<close>.
\<close>

inductive reachable_from :: "server \<Rightarrow> server \<Rightarrow> bool" where
  f_here: "reachable_from s0 s0"
| f_initialize: "reachable_from s0 s \<Longrightarrow> reachable_from s0 (initializeWhatsApp init_throws s)"
| f_destroying:
    "reachable_from s0 s \<Longrightarrow> reachable_from s0 (s\<lparr> connectionStatus := Disconnecting \<rparr>)"
| f_destroy: "reachable_from s0 s \<Longrightarrow> reachable_from s0 (destroyClient destroy_ok s)"
| f_qr: "reachable_from s0 s \<Longrightarrow> reachable_from s0 (on_qr qr s)"
| f_loading: "reachable_from s0 s \<Longrightarrow> reachable_from s0 (on_loading_screen percent s)"
| f_ready: "reachable_from s0 s \<Longrightarrow> reachable_from s0 (on_ready s)"
| f_authenticated: "reachable_from s0 s \<Longrightarrow> reachable_from s0 (on_authenticated s)"
| f_failed: "reachable_from s0 s \<Longrightarrow> reachable_from s0 (on_auth_failure_queue s)"
| f_initializing:
    "reachable_from s0 s \<Longrightarrow> reachable_from s0 (s\<lparr> connectionStatus := Initializing \<rparr>)"
| f_qr_null: "reachable_from s0 s \<Longrightarrow> reachable_from s0 (s\<lparr> qrCodeData := None \<rparr>)"
| f_push: "reachable_from s0 s \<Longrightarrow> reachable_from s0 (enqueue_number msg paths s num)"
| f_call: "reachable_from s0 s \<Longrightarrow> reachable_from s0 (processMessageQueue_call s)"
| f_task: "reachable_from s0 s \<Longrightarrow> reachable_from s0 (task_done i st s)"
| f_delay: "reachable_from s0 s \<Longrightarrow> reachable_from s0 (delay_done i s)"
| f_clear: "reachable_from s0 s \<Longrightarrow> reachable_from s0 (s\<lparr> messageQueue := [] \<rparr>)"

text \<open>
  \<open>dropped s i\<close>: the task with promise \<open>i\<close> was pushed, and it is neither in the queue,
  nor in flight, nor settled.
\<close>

definition dropped :: "server \<Rightarrow> nat \<Rightarrow> bool" where
  "dropped s i =
     (i < length (enqueued s)
      \<and> i \<notin> tid ` set (messageQueue s)
      \<and> i \<notin> tid ` set (in_flight (loops s))
      \<and> i \<notin> fst ` set (settled s))"

text \<open>
  The activation of \<open>processMessageQueue\<close> going on by itself, with nothing else in
  between, for at most \<open>n\<close> passes of the \<open>while\<close> loop: the task in flight is executed
  against the driver and settled with the outcome, the timer fires, and the loop is at
  its head again.
\<close>

fun loop_passes ::
  "'d driver \<Rightarrow> files \<Rightarrow> nat \<Rightarrow> server \<Rightarrow> 'd world \<Rightarrow> server \<times> 'd world" where
  "loop_passes D E 0 s w = (s, w)"
| "loop_passes D E (Suc n) s w =
     (case loops s of
        [AwaitingTask t] \<Rightarrow>
          (case execute_task D E w t of
             (st, w') \<Rightarrow> loop_passes D E n (delay_done 0 (task_done 0 st s)) w')
      | other \<Rightarrow> (s, w))"

section \<open>Observations and test fixtures\<close>

text \<open>
  \<open>new_calls w w'\<close>: the driver calls made between two worlds. \<open>media_send_with\<close>
  recognises a call \<open>sendMessage(chatId, media, { sendMediaAsDocument, caption })\<close> whose
  document flag is set exactly for a video type and whose caption is \<open>cap\<close>.
\<close>

definition new_calls :: "'d world \<Rightarrow> 'd world \<Rightarrow> call list" where
  "new_calls w w' = drop (length (trace w)) (trace w')"

fun media_send_with :: "string \<Rightarrow> string option \<Rightarrow> call \<Rightarrow> bool" where
  "media_send_with chatId cap (SendMessage c (MessageMedia mimeType d f) (Some opts)) =
     (c = chatId \<and> sendMediaAsDocument opts = isVideo mimeType \<and> caption opts = cap)"
| "media_send_with chatId cap k = False"

text \<open>
  A driver for examples: it reports exactly the chat ids of \<open>registered\<close> as registered
  and accepts every message. A file system for examples: every path exists below
  \<open>/app/\<close>, has the type \<open>mimeType\<close> and the content \<open>QUJD\<close>. The server after
  \<open>initializeWhatsApp()\<close> and the \<open>ready\<close> event, and a world in which no call was made.
\<close>

definition driver_registered :: "string list \<Rightarrow> unit driver" where
  "driver_registered registered =
     \<lparr> isRegisteredUser = (\<lambda>d chatId. (Inr (chatId \<in> set registered), d)),
       sendMessage = (\<lambda>d chatId c opts. (Inr (), d)) \<rparr>"

definition files_of_type :: "string \<Rightarrow> files" where
  "files_of_type mimeType =
     \<lparr> fullPath_of = (\<lambda>p. ''/app/'' @ p),
       existsSync = (\<lambda>p. True),
       mime_lookup = (\<lambda>p. Some mimeType),
       readBase64 = (\<lambda>p. Inr ''QUJD''),
       statSize = (\<lambda>p. Inr 3),
       basename = (\<lambda>p. drop 5 p) \<rparr>"

definition connected_server :: server where
  "connected_server = on_ready (initializeWhatsApp False initial_server)"

definition fresh_world :: "unit world" where
  "fresh_world = \<lparr> drv = (), trace = [] \<rparr>"

text \<open>
  A batch of three recipients with the text \<open>hi\<close>, accepted on the connected server: the
  handler is suspended, the first task is in flight. Then the client emits
  \<open>disconnected\<close>, the task in flight finishes with the outcome \<open>st\<close>, and the timer of
  the loop fires.
\<close>

definition three_accepted :: "response \<times> server" where
  "three_accepted =
     sendBulkMessages_queue_begin (Inr True) connected_server
       (Some [''1'', ''2'', ''3'']) (Some ''hi'') None"

definition three_after_disconnect :: "settlement \<Rightarrow> server" where
  "three_after_disconnect st =
     delay_done 0 (task_done 0 st (on_disconnected_queue True False (snd three_accepted)))"

section \<open>Invariant of the queue\<close>

text \<open>
  \<open>removed_part s P\<close>: \<open>P\<close> lists the tasks that were pushed and are no longer in the
  queue. The tasks whose execution began are among them, in the same order, except for
  the task in flight, which may still be the head of the queue. The invariant
  \<open>queue_inv\<close> adds that at most one activation exists, that the flag is set exactly
  while it exists, that the promises are numbered in the order of the pushes, and that
  the tasks whose execution began are the settled ones followed by the one in flight.
\<close>

definition removed_part :: "server \<Rightarrow> nat list \<Rightarrow> bool" where
  "removed_part s P =
     (enqueued s = P @ map tid (messageQueue s)
      \<and> subseq (started s)
           (P @ (if in_flight (loops s) = [] then [] else take 1 (map tid (messageQueue s)))))"

definition queue_inv :: "server \<Rightarrow> bool" where
  "queue_inv s =
     (length (loops s) \<le> 1
      \<and> (isProcessingQueue s \<longleftrightarrow> loops s \<noteq> [])
      \<and> enqueued s = [0 ..< length (enqueued s)]
      \<and> map fst (settled s) @ map tid (in_flight (loops s)) = started s
      \<and> (\<exists>P. removed_part s P))"

section \<open>Properties of the normalisation\<close>

lemma stripNonDigits_idem: "stripNonDigits (stripNonDigits s) = stripNonDigits s"
  by (simp add: stripNonDigits_def)

lemma stripNonDigits_digits: "list_all isDigit (stripNonDigits s)"
  by (simp add: stripNonDigits_def list_all_iff)

lemma stripNonDigits_fixed: "list_all isDigit s \<Longrightarrow> stripNonDigits s = s"
  by (simp add: stripNonDigits_def list_all_iff)

lemma formatNumber_digits: "list_all isDigit (formatNumber s)"
  using stripNonDigits_digits [of s]
  by (simp add: formatNumber_def Let_def isDigit_def)

lemma formatNumber_prefix: "startsWith (formatNumber s) ''20''"
  by (simp add: formatNumber_def Let_def startsWith_def)

text \<open>
  Claim C10. The normalisation is idempotent, its result consists of digits only, and
  its result begins with the country code 20, for every input string.
\<close>

theorem formatNumber_idempotent_digits_prefix:
  "formatNumber (formatNumber s) = formatNumber s
   \<and> list_all isDigit (formatNumber s)
   \<and> startsWith (formatNumber s) ''20''"
proof -
  have d: "list_all isDigit (formatNumber s)" by (rule formatNumber_digits)
  have p: "startsWith (formatNumber s) ''20''" by (rule formatNumber_prefix)
  have "stripNonDigits (formatNumber s) = formatNumber s"
    using d by (rule stripNonDigits_fixed)
  then have "formatNumber (formatNumber s) = formatNumber s"
    using p by (simp add: formatNumber_def [of "formatNumber s"] Let_def)
  with d p show ?thesis by simp
qed


section \<open>The queue has one consumer and keeps the order\<close>

lemma loops_cases:
  "length l \<le> 1 \<Longrightarrow> l = [] \<or> (\<exists>t. l = [AwaitingTask t]) \<or> l = [AwaitingDelay]"
  by (cases l; cases "hd l") (auto simp: Suc_le_eq)

lemma inv_init: "queue_inv initial_server"
  by (simp add: queue_inv_def removed_part_def initial_server_def)

lemma inv_push: assumes "queue_inv s" shows "queue_inv (enqueue_number msg paths s num)"
proof -
  from assms obtain P where P: "removed_part s P" by (auto simp: queue_inv_def)
  have "removed_part (enqueue_number msg paths s num) P"
    using P
    apply (cases "messageQueue s")
    apply (auto simp: removed_part_def enqueue_number_def Let_def)
    done
  moreover have "enqueued (enqueue_number msg paths s num)
      = [0 ..< length (enqueued (enqueue_number msg paths s num))]"
    using assms by (simp add: queue_inv_def enqueue_number_def Let_def)
  ultimately show ?thesis using assms
    by (auto simp: queue_inv_def enqueue_number_def Let_def)
qed

lemma inv_loop_head:
  assumes "length (loops s) \<le> 1" "loops s = []" "enqueued s = [0 ..< length (enqueued s)]"
    "removed_part s P" "map fst (settled s) = started s"
  shows "queue_inv (loop_head (s\<lparr> isProcessingQueue := True \<rparr>))"
  using assms
  apply (cases "messageQueue s")
   apply (auto simp: queue_inv_def removed_part_def loop_head_def intro!: exI[of _ P])
  done

lemma inv_call: assumes "queue_inv s" shows "queue_inv (processMessageQueue_call s)"
proof (cases "isProcessingQueue s \<or> messageQueue s = []")
  case True
  then show ?thesis using assms by (simp add: processMessageQueue_call_def)
next
  case False
  from assms obtain P where P: "removed_part s P" by (auto simp: queue_inv_def)
  from False assms have l: "loops s = []" by (simp add: queue_inv_def)
  have "queue_inv (loop_head (s\<lparr> isProcessingQueue := True \<rparr>))"
    using assms l P by (intro inv_loop_head[where P=P]) (simp_all add: queue_inv_def)
  then show ?thesis using False by (simp add: processMessageQueue_call_def)
qed

lemma subseq_take1: "subseq xs (P @ take 1 q) \<Longrightarrow> subseq xs (P @ q)"
proof -
  assume a: "subseq xs (P @ take 1 q)"
  have "subseq (P @ take 1 q) (P @ (take 1 q @ drop 1 q))"
    by (metis append.assoc list_emb_prefix subseq_order.order_refl)
  then have "subseq (P @ take 1 q) (P @ q)" by simp
  with a show ?thesis by (rule subseq_order.order_trans)
qed

lemma inv_task: assumes "queue_inv s" shows "queue_inv (task_done i st s)"
proof -
  from assms obtain P where P: "removed_part s P" by (auto simp: queue_inv_def)
  from assms have "length (loops s) \<le> 1" by (simp add: queue_inv_def)
  then consider "loops s = []" | t where "loops s = [AwaitingTask t]" | "loops s = [AwaitingDelay]"
    using loops_cases by blast
  then show ?thesis
  proof cases
    case 1 then show ?thesis using assms by (simp add: task_done_def)
  next
    case 3 then show ?thesis using assms by (simp add: task_done_def)
  next
    case (2 t)
    show ?thesis
    proof (cases "i = 0")
      case False
      then show ?thesis using assms 2 by (simp add: task_done_def)
    next
      case True
      have "removed_part (task_done i st s) (P @ take 1 (map tid (messageQueue s)))"
        using P 2 True by (cases "messageQueue s") (auto simp: removed_part_def task_done_def)
      then show ?thesis using assms 2 True
        by (auto simp: queue_inv_def task_done_def)
    qed
  qed
qed

lemma inv_delay: assumes "queue_inv s" shows "queue_inv (delay_done i s)"
proof -
  from assms obtain P where P: "removed_part s P" by (auto simp: queue_inv_def)
  from assms have "length (loops s) \<le> 1" by (simp add: queue_inv_def)
  then consider "loops s = []" | t where "loops s = [AwaitingTask t]" | "loops s = [AwaitingDelay]"
    using loops_cases by blast
  then show ?thesis
  proof cases
    case 1 then show ?thesis using assms by (simp add: delay_done_def)
  next
    case (2 t) then show ?thesis using assms by (simp add: delay_done_def)
  next
    case 3
    show ?thesis
    proof (cases "messageQueue s")
      case Nil
      then show ?thesis using assms 3 P
        by (auto simp: queue_inv_def delay_done_def loop_head_def removed_part_def)
    next
      case (Cons t r)
      then show ?thesis using assms 3 P
        by (auto simp: queue_inv_def delay_done_def loop_head_def removed_part_def
              intro!: exI[of _ P])
    qed
  qed
qed

lemma inv_clear: assumes "queue_inv s" shows "queue_inv (s\<lparr> messageQueue := [] \<rparr>)"
proof -
  from assms obtain P where P: "removed_part s P" by (auto simp: queue_inv_def)
  have "subseq (started s) (P @ map tid (messageQueue s))"
  proof (cases "in_flight (loops s) = []")
    case True
    then show ?thesis using P by (simp add: removed_part_def list_emb_prefix)
  next
    case False
    then show ?thesis using P by (simp add: removed_part_def subseq_take1)
  qed
  then have "removed_part (s\<lparr> messageQueue := [] \<rparr>) (P @ map tid (messageQueue s))"
    using P by (simp add: removed_part_def)
  then show ?thesis using assms by (auto simp: queue_inv_def)
qed

lemma removed_part_frame:
  assumes "removed_part s P"
    and "loops s' = loops s" and "enqueued s' = enqueued s"
    and "messageQueue s' = messageQueue s" and "started s' = started s"
  shows "removed_part s' P"
  using assms unfolding removed_part_def by (simp split: if_splits)

lemma queue_inv_frame:
  assumes "queue_inv s"
    and "loops s' = loops s" and "isProcessingQueue s' = isProcessingQueue s"
    and "enqueued s' = enqueued s" and "messageQueue s' = messageQueue s"
    and "started s' = started s" and "settled s' = settled s"
  shows "queue_inv s'"
proof -
  from assms(1) obtain P where "removed_part s P" by (auto simp: queue_inv_def)
  then have "removed_part s' P" using assms(2,4,5,6) by (rule removed_part_frame)
  then have "\<exists>P. removed_part s' P" ..
  then show ?thesis using assms by (simp add: queue_inv_def)
qed

text \<open>Every reachable state satisfies the invariant: one case per piece of code.\<close>

lemma reachable_inv: "reachable s \<Longrightarrow> queue_inv s"
proof (induction rule: reachable.induct)
  case r_init show ?case by (rule inv_init)
next
  case (r_initialize s b)
  then show ?case
    by (elim queue_inv_frame) (simp_all add: initializeWhatsApp_def Let_def)
next
  case (r_destroying s)
  then show ?case by (elim queue_inv_frame) simp_all
next
  case (r_destroy s ok)
  then show ?case by (elim queue_inv_frame) (simp_all add: destroyClient_def Let_def)
next
  case (r_qr s qr)
  then show ?case by (elim queue_inv_frame) (simp_all add: on_qr_def)
next
  case (r_loading s p)
  then show ?case by (elim queue_inv_frame) (simp_all add: on_loading_screen_def)
next
  case (r_ready s)
  then show ?case by (elim queue_inv_frame) (simp_all add: on_ready_def)
next
  case (r_authenticated s)
  then show ?case by (elim queue_inv_frame) (simp_all add: on_authenticated_def)
next
  case (r_failed s)
  then show ?case by (elim queue_inv_frame) (simp_all add: on_auth_failure_queue_def)
next
  case (r_initializing s)
  then show ?case by (elim queue_inv_frame) simp_all
next
  case (r_qr_null s)
  then show ?case by (elim queue_inv_frame) simp_all
next
  case (r_push s msg paths num)
  then show ?case by (simp add: inv_push)
next
  case (r_call s)
  then show ?case by (simp add: inv_call)
next
  case (r_task s i st)
  then show ?case by (simp add: inv_task)
next
  case (r_delay s i)
  then show ?case by (simp add: inv_delay)
next
  case (r_clear s)
  then show ?case by (simp add: inv_clear)
qed

lemma in_flight_le: "length (in_flight l) \<le> length l"
  by (induction l rule: in_flight.induct) auto

lemma reachable_order: "reachable s \<Longrightarrow>
   length (loops s) \<le> 1 \<and> length (in_flight (loops s)) \<le> 1
   \<and> subseq (started s) (enqueued s) \<and> distinct (enqueued s)"
proof -
  assume r: "reachable s"
  then have i: "queue_inv s" by (rule reachable_inv)
  then obtain P where P: "removed_part s P" by (auto simp: queue_inv_def)
  have l: "length (loops s) \<le> 1" using i by (simp add: queue_inv_def)
  have f: "length (in_flight (loops s)) \<le> 1" using l in_flight_le[of "loops s"] by linarith
  have "subseq (started s) (P @ map tid (messageQueue s))"
  proof (cases "in_flight (loops s) = []")
    case True
    then show ?thesis using P by (simp add: removed_part_def list_emb_prefix)
  next
    case False
    then show ?thesis using P by (simp add: removed_part_def subseq_take1)
  qed
  then have s: "subseq (started s) (enqueued s)" using P by (simp add: removed_part_def)
  have "distinct [0 ..< length (enqueued s)]" by simp
  moreover have "enqueued s = [0 ..< length (enqueued s)]" using i by (simp add: queue_inv_def)
  ultimately have d: "distinct (enqueued s)" by metis
  from l f s d show ?thesis by simp
qed


text \<open>
  Claim C8. In every state the server can reach, at most one activation of
  \<open>processMessageQueue\<close> exists, so at most one task is being executed against the driver;
  and the tasks whose execution began form, in the order in which it began, a subsequence
  of the tasks in the order in which they were pushed (each pushed once): no task is
  executed before one that was pushed earlier and is executed too.
\<close>

theorem queue_single_consumer_fifo: "reachable s \<Longrightarrow>
   length (loops s) \<le> 1 \<and> length (in_flight (loops s)) \<le> 1
   \<and> subseq (started s) (enqueued s) \<and> distinct (enqueued s)"
  by (rule reachable_order)

text \<open>
  A reachable state for C8: two tasks pushed, the first one executed and settled.
\<close>

theorem queue_single_consumer_fifo_witness:
  "reachable (task_done 0 (Fulfilled ''201'')
      (processMessageQueue_call
        (enqueue_number (Some ''hi'') None
          (enqueue_number (Some ''hi'') None initial_server ''1'') ''2'')))
   \<and> started (task_done 0 (Fulfilled ''201'')
      (processMessageQueue_call
        (enqueue_number (Some ''hi'') None
          (enqueue_number (Some ''hi'') None initial_server ''1'') ''2''))) = [0]
   \<and> enqueued (task_done 0 (Fulfilled ''201'')
      (processMessageQueue_call
        (enqueue_number (Some ''hi'') None
          (enqueue_number (Some ''hi'') None initial_server ''1'') ''2''))) = [0, 1]
   \<and> subseq [0::nat] [0, 1]"
proof -
  let ?S = "task_done 0 (Fulfilled ''201'')
      (processMessageQueue_call
        (enqueue_number (Some ''hi'') None
          (enqueue_number (Some ''hi'') None initial_server ''1'') ''2''))"
  have r: "reachable ?S" by (intro reachable.intros)
  have e: "started ?S = [0] \<and> enqueued ?S = [0, 1]"
    by (simp add: task_done_def processMessageQueue_call_def loop_head_def enqueue_number_def
          initial_server_def Let_def)
  from queue_single_consumer_fifo[OF r] e r show ?thesis by simp
qed




lemma subseq_distinct: "subseq xs ys \<Longrightarrow> distinct ys \<Longrightarrow> distinct (xs :: 'a list)"
proof (induction rule: list_emb.induct)
  case (list_emb_Cons2 x y xs ys)
  then have "x \<notin> set ys" by simp
  moreover have "set xs \<subseteq> set ys"
    using list_emb_Cons2.hyps(2) by (auto dest: list_emb_set)
  ultimately show ?case using list_emb_Cons2 by auto
qed auto

lemma settled_once:
  assumes "reachable s" shows "distinct (map fst (settled s))"
proof -
  from assms have i: "queue_inv s" by (rule reachable_inv)
  have "subseq (started s) (enqueued s) \<and> distinct (enqueued s)"
    using reachable_order[OF assms] by simp
  then have "distinct (started s)" using subseq_distinct by blast
  moreover have "map fst (settled s) @ map tid (in_flight (loops s)) = started s"
    using i by (simp add: queue_inv_def)
  ultimately show ?thesis by (metis distinct_append)
qed

lemma composite_handlers_reachable:
  assumes "reachable s"
  shows "reachable (on_ready_queue s)"
    and "reachable (on_disconnected_queue destroy_ok init_throws s)"
    and "reachable (on_disconnected_loop destroy_ok clear_ok init_throws s)"
    and "reachable (on_auth_failure_loop clear_ok init_throws s)"
proof -
  show "reachable (on_ready_queue s)"
    unfolding on_ready_queue_def using assms by (intro r_call r_ready)
  show "reachable (on_disconnected_queue destroy_ok init_throws s)"
    unfolding on_disconnected_queue_def Let_def using assms
    by (intro r_initialize r_clear r_destroy)
  show "reachable (on_disconnected_loop destroy_ok clear_ok init_throws s)"
    unfolding on_disconnected_loop_def Let_def using assms
    by (cases clear_ok) (auto intro: r_initialize r_destroy)
  have "reachable (on_auth_failure_queue s)" using assms by (rule r_failed)
  then show "reachable (on_auth_failure_loop clear_ok init_throws s)"
    unfolding on_auth_failure_loop_def on_auth_failure_queue_def Let_def
    by (cases clear_ok) (auto intro: r_initialize)
qed


section \<open>Every recipient of a batch is reported once\<close>

lemma numbers_loop_count:
  "numbers_loop D E msg paths w res ns = (res', w') \<Longrightarrow>
   length (success res') + length (failed res')
     = length (success res) + length (failed res) + length ns"
proof (induction ns arbitrary: w res)
  case Nil then show ?case by simp
next
  case (Cons n ns)
  then show ?case
    by (auto split: prod.splits sum.splits)
qed

lemma numbers_stream_count:
  "numbers_stream D E msg paths w res ns = (res', w') \<Longrightarrow>
   length (success res') + length (failed res')
     = length (success res) + length (failed res) + length ns"
proof (induction ns arbitrary: w res)
  case Nil then show ?case by simp
next
  case (Cons n ns)
  then show ?case
    by (auto split: prod.splits sum.splits)
qed

lemma collect_results_count:
  "length (success (collect_results res sts)) + length (failed (collect_results res sts))
     = length (success res) + length (failed res) + length sts"
  by (induction res sts rule: collect_results.induct) auto

lemma allSettled_length: "allSettled log ids = Some sts \<Longrightarrow> length sts = length ids"
  by (induction ids arbitrary: sts) (auto split: option.splits)

lemma report_counts_whenever_settled:
  "allSettled log promises = Some sts \<Longrightarrow>
   length (success (collect_results empty_results sts))
     + length (failed (collect_results empty_results sts)) = length promises"
  using collect_results_count[of empty_results sts] allSettled_length[of log promises sts]
  by (simp add: empty_results_def)

lemma allSettled_total:
  "set ids \<subseteq> fst ` set log \<Longrightarrow> \<exists>sts. allSettled log ids = Some sts"
proof (induction ids)
  case Nil then show ?case by simp
next
  case (Cons i ids)
  then obtain sts where "allSettled log ids = Some sts" by auto
  moreover from Cons.prems have "i \<in> fst ` set log" by simp
  then have "map_of log i \<noteq> None" by (simp add: map_of_eq_None_iff)
  ultimately show ?case by auto
qed

lemma drain_queue_ids: "drain_queue D E w ts = (log, w') \<Longrightarrow> map fst log = map tid ts"
  by (induction ts arbitrary: w log) (auto split: prod.splits)

lemma enqueue_all_fields:
  "enqueued (enqueue_all msg paths s ns) = enqueued s @ [length (enqueued s) ..< length (enqueued s) + length ns]
   \<and> map tid (messageQueue (enqueue_all msg paths s ns))
       = map tid (messageQueue s) @ [length (enqueued s) ..< length (enqueued s) + length ns]
   \<and> isProcessingQueue (enqueue_all msg paths s ns) = isProcessingQueue s
   \<and> settled (enqueue_all msg paths s ns) = settled s
   \<and> loops (enqueue_all msg paths s ns) = loops s"
proof (induction ns arbitrary: s)
  case Nil then show ?case by (simp add: enqueue_all_def)
next
  case (Cons n ns)
  have e: "enqueue_all msg paths s (n # ns) = enqueue_all msg paths (enqueue_number msg paths s n) ns"
    by (simp add: enqueue_all_def)
  have u: "[length (enqueued s) ..< length (enqueued s) + Suc (length ns)]
        = length (enqueued s) # [Suc (length (enqueued s)) ..< Suc (length (enqueued s)) + length ns]"
    by (simp add: upt_rec)
  show ?case
    unfolding e using Cons.IH[of "enqueue_number msg paths s n"] u
    by (simp add: enqueue_number_def Let_def)
qed

lemma loop_reports_all:
  assumes "client s \<noteq> None" "connectionStatus s = Connected" "ns \<noteq> []"
    "truthy msg \<or> has_media paths"
  shows "\<exists>res w'. sendBulkMessages_loop D E s w (Some ns) msg paths = (Json res, w')
           \<and> length (success res) + length (failed res) = length ns"
proof -
  obtain res w' where r: "numbers_loop D E msg paths w empty_results ns = (res, w')"
    by (cases "numbers_loop D E msg paths w empty_results ns") auto
  from numbers_loop_count[OF r]
  have "length (success res) + length (failed res) = length ns"
    by (simp add: empty_results_def)
  moreover have "sendBulkMessages_loop D E s w (Some ns) msg paths = (Json res, w')"
    using assms r by (auto simp: sendBulkMessages_loop_def)
  ultimately show ?thesis by blast
qed

lemma stream_reports_all:
  assumes "client s \<noteq> None" "ns \<noteq> []"
  shows "\<exists>res w'. sendBulkMessages_stream D E s w (Some ns) msg paths = (Json res, w')
           \<and> length (success res) + length (failed res) = length ns"
proof -
  obtain res w' where r: "numbers_stream D E msg paths w empty_results ns = (res, w')"
    by (cases "numbers_stream D E msg paths w empty_results ns") auto
  from numbers_stream_count[OF r]
  have "length (success res) + length (failed res) = length ns"
    by (simp add: empty_results_def)
  moreover have "sendBulkMessages_stream D E s w (Some ns) msg paths = (Json res, w')"
    using assms r by (auto simp: sendBulkMessages_stream_def)
  ultimately show ?thesis by blast
qed

lemma queue_reports_all:
  assumes "\<not> isProcessingQueue s" "ns \<noteq> []"
  shows "\<exists>res s' w'. sendBulkMessages_queue D E (Inr True) s w (Some ns) msg paths = (Json res, s', w')
           \<and> length (success res) + length (failed res) = length ns"
proof -
  let ?s1 = "enqueue_all msg paths s ns"
  let ?n = "length (enqueued s)"
  note f = enqueue_all_fields[of msg paths s ns]
  have len: "length (enqueued ?s1) = ?n + length ns" using f by simp
  have q: "messageQueue ?s1 \<noteq> []"
  proof
    assume "messageQueue ?s1 = []"
    then have "map tid (messageQueue ?s1) = []" by simp
    with f assms(2) show False by simp
  qed
  have p: "\<not> isProcessingQueue ?s1" using f assms(1) by simp
  obtain log w' where d: "drain_queue D E w (messageQueue ?s1) = (log, w')"
    by (cases "drain_queue D E w (messageQueue ?s1)") auto
  let ?s2 = "?s1\<lparr> messageQueue := [], isProcessingQueue := False,
                    settled := settled ?s1 @ log,
                    started := started ?s1 @ map tid (messageQueue ?s1) \<rparr>"
  have run: "processMessageQueue_run D E ?s1 w = (?s2, w')"
    using q p d by (simp add: processMessageQueue_run_def)
  have ids: "map fst log = map tid (messageQueue ?s1)" using d by (rule drain_queue_ids)
  have "set [?n ..< ?n + length ns] \<subseteq> set (map fst log)"
    unfolding ids using f by simp
  then have "set [?n ..< ?n + length ns] \<subseteq> fst ` set (settled ?s2)" by auto
  then obtain sts where a: "allSettled (settled ?s2) [?n ..< ?n + length ns] = Some sts"
    using allSettled_total by blast
  have l: "length sts = length ns" using allSettled_length[OF a] by simp
  have "sendBulkMessages_queue D E (Inr True) s w (Some ns) msg paths
          = (Json (collect_results empty_results sts), ?s2, w')"
    using assms(2) run a len
    by (simp add: sendBulkMessages_queue_def sendBulkMessages_queue_resume_def Let_def)
  moreover have "length (success (collect_results empty_results sts))
        + length (failed (collect_results empty_results sts)) = length ns"
    using collect_results_count[of empty_results sts] l by (simp add: empty_results_def)
  ultimately show ?thesis by blast
qed

text \<open>
  The three lemmas above are the cases in which every recipient is reported: the two
  versions with a loop, always, and the version with a queue when the handler's own call
  of \<open>processMessageQueue()\<close> drains the queue. That call, \<open>processMessageQueue_run\<close>, is
  the loop of the step model going on by itself: the two agree in every field of the
  state.
\<close>

lemma passes_drain:
  "loops s = [AwaitingTask t] \<Longrightarrow> messageQueue s = t # rest \<Longrightarrow>
   drain_queue D E w (t # rest) = (log, w') \<Longrightarrow>
   loop_passes D E (Suc (length rest)) s w
     = (s\<lparr> messageQueue := [], isProcessingQueue := False, loops := [],
           settled := settled s @ log, started := started s @ map tid rest \<rparr>, w')"
proof (induction rest arbitrary: s t w log)
  case Nil
  then show ?case
    by (auto simp: task_done_def delay_done_def loop_head_def split: prod.splits)
next
  case (Cons t2 r2)
  obtain st w1 where e: "execute_task D E w t = (st, w1)"
    by (cases "execute_task D E w t") auto
  obtain log2 where d: "drain_queue D E w1 (t2 # r2) = (log2, w')" and l: "log = (tid t, st) # log2"
    using Cons.prems(3) e by (auto split: prod.splits)
  let ?s' = "delay_done 0 (task_done 0 st s)"
  have s': "?s' = s\<lparr> settled := settled s @ [(tid t, st)], messageQueue := t2 # r2,
                 loops := [AwaitingTask t2], started := started s @ [tid t2] \<rparr>"
    using Cons.prems(1,2) by (simp add: task_done_def delay_done_def loop_head_def)
  have "loop_passes D E (Suc (length r2)) ?s' w1
     = (?s'\<lparr> messageQueue := [], isProcessingQueue := False, loops := [],
           settled := settled ?s' @ log2, started := started ?s' @ map tid r2 \<rparr>, w')"
    by (rule Cons.IH[OF _ _ d]) (simp_all add: s')
  then show ?case
    using Cons.prems(1) e l by (simp add: s')
qed

lemma run_is_undisturbed_loop:
  assumes "\<not> isProcessingQueue s" "loops s = []"
  shows "processMessageQueue_run D E s w
           = loop_passes D E (length (messageQueue s)) (processMessageQueue_call s) w"
proof (cases "messageQueue s")
  case Nil
  then show ?thesis using assms by (simp add: processMessageQueue_run_def processMessageQueue_call_def)
next
  case (Cons t rest)
  obtain log w' where d: "drain_queue D E w (t # rest) = (log, w')"
    by (cases "drain_queue D E w (t # rest)") auto
  let ?c = "processMessageQueue_call s"
  have c: "?c = s\<lparr> isProcessingQueue := True, loops := [AwaitingTask t],
                     started := started s @ [tid t] \<rparr>"
    using assms Cons by (simp add: processMessageQueue_call_def loop_head_def)
  have p: "loop_passes D E (Suc (length rest)) ?c w
     = (?c\<lparr> messageQueue := [], isProcessingQueue := False, loops := [],
           settled := settled ?c @ log, started := started ?c @ map tid rest \<rparr>, w')"
    by (rule passes_drain[OF _ _ d]) (simp_all add: c Cons)
  have r: "processMessageQueue_run D E s w
     = (s\<lparr> messageQueue := [], isProcessingQueue := False,
           settled := settled s @ log, started := started s @ map tid (t # rest) \<rparr>, w')"
    using assms Cons d by (simp add: processMessageQueue_run_def)
  have e: "?c\<lparr> messageQueue := [], isProcessingQueue := False, loops := [],
           settled := settled ?c @ log, started := started ?c @ map tid rest \<rparr>
        = s\<lparr> messageQueue := [], isProcessingQueue := False,
           settled := settled s @ log, started := started s @ map tid (t # rest) \<rparr>"
    unfolding c using assms(2) by (cases s) simp
  show ?thesis unfolding r using p e Cons by simp
qed


lemma call_keeps_queue: "messageQueue (processMessageQueue_call s) = messageQueue s"
  by (simp add: processMessageQueue_call_def loop_head_def split: list.splits)

lemma handler_is_begin_loop_resume:
  assumes "\<not> isProcessingQueue s" "loops s = []"
  shows "sendBulkMessages_queue D E ensured s w numbers msg paths
           = (case sendBulkMessages_queue_begin ensured s numbers msg paths of
                (Awaiting promises, sb) \<Rightarrow>
                  (case loop_passes D E (length (messageQueue sb)) sb w of
                     (s2, w2) \<Rightarrow> (sendBulkMessages_queue_resume s2 promises, s2, w2))
              | (r, sb) \<Rightarrow> (r, s, w))"
proof (cases ensured)
  case (Inl e)
  then show ?thesis by (simp add: sendBulkMessages_queue_def sendBulkMessages_queue_begin_def)
next
  case (Inr isReady)
  show ?thesis
  proof (cases "isReady \<and> numbers \<noteq> None \<and> numbers \<noteq> Some []")
    case False
    then show ?thesis using Inr
      by (auto simp: sendBulkMessages_queue_def sendBulkMessages_queue_begin_def
            split: option.splits)
  next
    case True
    then obtain ns where ns: "numbers = Some ns" "ns \<noteq> []" by auto
    let ?s1 = "enqueue_all msg paths s ns"
    note f = enqueue_all_fields[of msg paths s ns]
    have "processMessageQueue_run D E ?s1 w
            = loop_passes D E (length (messageQueue ?s1)) (processMessageQueue_call ?s1) w"
      using assms f by (intro run_is_undisturbed_loop) simp_all
    then show ?thesis using Inr True ns
      by (simp add: sendBulkMessages_queue_def sendBulkMessages_queue_begin_def Let_def
            call_keeps_queue split: prod.splits)
  qed
qed

text \<open>
  When another activation holds the flag, the handler's call of
  \<open>processMessageQueue()\<close> returns at once and the handler is suspended where the step
  model has it; the running loop takes the new tasks after its own. An example: a second
  batch arrives while the task of the first one is in flight; after two passes of the
  loop both batches are answered.
\<close>

lemma handler_busy_is_begin:
  assumes "isProcessingQueue s"
  shows "sendBulkMessages_queue D E ensured s w numbers msg paths
           = (case sendBulkMessages_queue_begin ensured s numbers msg paths of
                (Awaiting promises, sb) \<Rightarrow> (sendBulkMessages_queue_resume sb promises, sb, w)
              | (r, sb) \<Rightarrow> (r, s, w))"
proof (cases ensured)
  case (Inl e)
  then show ?thesis by (simp add: sendBulkMessages_queue_def sendBulkMessages_queue_begin_def)
next
  case (Inr isReady)
  show ?thesis
  proof (cases "isReady \<and> numbers \<noteq> None \<and> numbers \<noteq> Some []")
    case False
    then show ?thesis using Inr
      by (auto simp: sendBulkMessages_queue_def sendBulkMessages_queue_begin_def
            split: option.splits)
  next
    case True
    then obtain ns where ns: "numbers = Some ns" "ns \<noteq> []" by auto
    have b: "isProcessingQueue (enqueue_all msg paths s ns)"
      using assms enqueue_all_fields[of msg paths s ns] by simp
    show ?thesis using Inr True ns b
      by (simp add: sendBulkMessages_queue_def sendBulkMessages_queue_begin_def Let_def
            processMessageQueue_run_def processMessageQueue_call_def)
  qed
qed

lemma busy_batch_is_answered:
  "fst (sendBulkMessages_queue_begin (Inr True)
          (snd (sendBulkMessages_queue_begin (Inr True) connected_server
                  (Some [''201'']) (Some ''hi'') None))
          (Some [''202'']) (Some ''hi'') None) = Awaiting [1]
   \<and> sendBulkMessages_queue_resume
        (fst (loop_passes (driver_registered [''201@c.us'']) (files_of_type ''image/png'') 2
          (snd (sendBulkMessages_queue_begin (Inr True)
            (snd (sendBulkMessages_queue_begin (Inr True) connected_server
                    (Some [''201'']) (Some ''hi'') None))
            (Some [''202'']) (Some ''hi'') None))
          fresh_world))
        [0] = Json \<lparr> success = [''201''], failed = [] \<rparr>
   \<and> sendBulkMessages_queue_resume
        (fst (loop_passes (driver_registered [''201@c.us'']) (files_of_type ''image/png'') 2
          (snd (sendBulkMessages_queue_begin (Inr True)
            (snd (sendBulkMessages_queue_begin (Inr True) connected_server
                    (Some [''201'']) (Some ''hi'') None))
            (Some [''202'']) (Some ''hi'') None))
          fresh_world))
        [1] = Json \<lparr> success = [], failed = [(''202'', NotRegistered)] \<rparr>"
  by (simp add: sendBulkMessages_queue_begin_def sendBulkMessages_queue_resume_def
        enqueue_all_def enqueue_number_def processMessageQueue_call_def loop_head_def
        task_done_def delay_done_def connected_server_def on_ready_def initializeWhatsApp_def
        initial_server_def driver_registered_def files_of_type_def fresh_world_def
        execute_task_def call_isRegisteredUser_def call_sendMessage_def chatId_of_def
        has_media_def truthy_text_def send_text_def empty_results_def formatNumber_def
        stripNonDigits_def isDigit_def startsWith_def numeral_2_eq_2 Let_def)

text \<open>
  A task that was pushed and is neither queued, nor in flight, nor settled stays so,
  whatever the server does next: only the loop settles promises, and it takes its tasks
  from the queue; the tasks pushed later have other promises. A batch with such a task is
  never answered.
\<close>

lemma set_in_flight: "set (in_flight l) = {t. AwaitingTask t \<in> set l}"
  by (induction l rule: in_flight.induct) auto

lemma in_flight_nth:
  "k < length l \<Longrightarrow> l ! k = AwaitingTask t \<Longrightarrow> t \<in> set (in_flight l)"
  by (metis mem_Collect_eq nth_mem set_in_flight)

lemma in_flight_update: "set (in_flight (l[k := AwaitingDelay])) \<subseteq> set (in_flight l)"
proof -
  have "set (l[k := AwaitingDelay]) \<subseteq> insert AwaitingDelay (set l)"
    by (rule set_update_subset_insert)
  then show ?thesis by (auto simp: set_in_flight)
qed

lemma in_flight_remove: "set (in_flight (take k l @ drop (Suc k) l)) \<subseteq> set (in_flight l)"
  by (auto simp: set_in_flight dest: in_set_takeD in_set_dropD)

lemma in_flight_append: "in_flight (a @ b) = in_flight a @ in_flight b"
  by (induction a rule: in_flight.induct) auto

lemma dropped_frame:
  assumes "dropped s i"
    and "loops s' = loops s" and "enqueued s' = enqueued s"
    and "messageQueue s' = messageQueue s" and "settled s' = settled s"
  shows "dropped s' i"
  using assms by (simp add: dropped_def)

lemma dropped_push: "dropped s i \<Longrightarrow> dropped (enqueue_number msg paths s num) i"
  by (auto simp: dropped_def enqueue_number_def Let_def)

lemma dropped_loop_head:
  assumes "dropped s i" shows "dropped (loop_head s) i"
proof (cases "messageQueue s")
  case Nil
  then show ?thesis using assms by (simp add: loop_head_def dropped_def)
next
  case (Cons t rest)
  then have "tid t \<noteq> i" using assms by (auto simp: dropped_def)
  then show ?thesis using assms Cons
    by (auto simp: loop_head_def dropped_def in_flight_append)
qed

lemma dropped_call: assumes "dropped s i" shows "dropped (processMessageQueue_call s) i"
proof -
  have "dropped (s\<lparr> isProcessingQueue := True \<rparr>) i"
    using assms by (rule dropped_frame) simp_all
  then have "dropped (loop_head (s\<lparr> isProcessingQueue := True \<rparr>)) i" by (rule dropped_loop_head)
  then show ?thesis using assms by (simp add: processMessageQueue_call_def)
qed

lemma dropped_task: assumes "dropped s i" shows "dropped (task_done k st s) i"
proof (cases "k < length (loops s)")
  case False
  then show ?thesis using assms by (simp add: task_done_def)
next
  case True
  show ?thesis
  proof (cases "loops s ! k")
    case AwaitingDelay
    then show ?thesis using assms True by (simp add: task_done_def)
  next
    case (AwaitingTask t)
    then have "t \<in> set (in_flight (loops s))" using True by (simp add: in_flight_nth)
    then have n: "tid t \<noteq> i" using assms by (auto simp: dropped_def)
    have q: "set (tl (messageQueue s)) \<subseteq> set (messageQueue s)"
      by (cases "messageQueue s") auto
    show ?thesis using assms True AwaitingTask n q in_flight_update[of "loops s" k]
      by (auto simp: task_done_def dropped_def)
  qed
qed

lemma dropped_delay: assumes "dropped s i" shows "dropped (delay_done k s) i"
proof (cases "k < length (loops s)")
  case False
  then show ?thesis using assms by (simp add: delay_done_def)
next
  case True
  show ?thesis
  proof (cases "loops s ! k")
    case (AwaitingTask t)
    then show ?thesis using assms True by (simp add: delay_done_def)
  next
    case AwaitingDelay
    have "dropped (s\<lparr> loops := take k (loops s) @ drop (Suc k) (loops s) \<rparr>) i"
      using assms in_flight_remove[of k "loops s"] by (auto simp: dropped_def)
    then have "dropped (loop_head (s\<lparr> loops := take k (loops s) @ drop (Suc k) (loops s) \<rparr>)) i"
      by (rule dropped_loop_head)
    then show ?thesis using True AwaitingDelay by (simp add: delay_done_def)
  qed
qed

lemma dropped_clear: "dropped s i \<Longrightarrow> dropped (s\<lparr> messageQueue := [] \<rparr>) i"
  by (simp add: dropped_def)

lemma dropped_forever:
  assumes "reachable_from s0 s" "dropped s0 i" shows "dropped s i"
  using assms
proof (induction rule: reachable_from.induct)
  case (f_here s0) then show ?case by simp
next
  case (f_initialize s0 s b)
  then have "dropped s i" by simp
  then show ?case by (rule dropped_frame) (simp_all add: initializeWhatsApp_def Let_def)
next
  case (f_destroying s0 s)
  then have "dropped s i" by simp
  then show ?case by (rule dropped_frame) simp_all
next
  case (f_destroy s0 s ok)
  then have "dropped s i" by simp
  then show ?case by (rule dropped_frame) (simp_all add: destroyClient_def Let_def)
next
  case (f_qr s0 s qr)
  then have "dropped s i" by simp
  then show ?case by (rule dropped_frame) (simp_all add: on_qr_def)
next
  case (f_loading s0 s p)
  then have "dropped s i" by simp
  then show ?case by (rule dropped_frame) (simp_all add: on_loading_screen_def)
next
  case (f_ready s0 s)
  then have "dropped s i" by simp
  then show ?case by (rule dropped_frame) (simp_all add: on_ready_def)
next
  case (f_authenticated s0 s)
  then have "dropped s i" by simp
  then show ?case by (rule dropped_frame) (simp_all add: on_authenticated_def)
next
  case (f_failed s0 s)
  then have "dropped s i" by simp
  then show ?case by (rule dropped_frame) (simp_all add: on_auth_failure_queue_def)
next
  case (f_initializing s0 s)
  then have "dropped s i" by simp
  then show ?case by (rule dropped_frame) simp_all
next
  case (f_qr_null s0 s)
  then have "dropped s i" by simp
  then show ?case by (rule dropped_frame) simp_all
next
  case (f_push s0 s msg paths num) then show ?case by (simp add: dropped_push)
next
  case (f_call s0 s) then show ?case by (simp add: dropped_call)
next
  case (f_task s0 s k st) then show ?case by (simp add: dropped_task)
next
  case (f_delay s0 s k) then show ?case by (simp add: dropped_delay)
next
  case (f_clear s0 s) then show ?case by (simp add: dropped_clear)
qed

lemma allSettled_pending:
  "i \<in> set promises \<Longrightarrow> i \<notin> fst ` set log \<Longrightarrow> allSettled log promises = None"
proof (induction promises)
  case Nil then show ?case by simp
next
  case (Cons p ps)
  show ?case
  proof (cases "p = i")
    case True
    then have "map_of log p = None" using Cons.prems by (simp add: map_of_eq_None_iff)
    then show ?thesis by simp
  next
    case False
    then have "allSettled log ps = None" using Cons by simp
    then show ?thesis by (simp split: option.splits)
  qed
qed

lemma dropped_never_answered:
  assumes "dropped s0 i" "i \<in> set promises" "reachable_from s0 s"
  shows "sendBulkMessages_queue_resume s promises = Awaiting promises"
proof -
  have "dropped s i" using assms(3,1) by (rule dropped_forever)
  then have "i \<notin> fst ` set (settled s)" by (simp add: dropped_def)
  then have "allSettled (settled s) promises = None" using assms(2) by (simp add: allSettled_pending)
  then show ?thesis by (simp add: sendBulkMessages_queue_resume_def)
qed

lemma reachable_from_initial: "reachable s \<longleftrightarrow> reachable_from initial_server s"
proof
  assume "reachable s"
  then show "reachable_from initial_server s"
    by (induction rule: reachable.induct) (auto intro: reachable_from.intros)
next
  assume "reachable_from initial_server s"
  then show "reachable s"
    by (induction s0\<equiv>initial_server s rule: reachable_from.induct) (auto intro: reachable.intros)
qed

lemma reachable_from_reachable:
  "reachable_from s0 s \<Longrightarrow> reachable s0 \<Longrightarrow> reachable s"
  by (induction rule: reachable_from.induct) (auto intro: reachable.intros)


lemma enqueue_all_reachable: "reachable s \<Longrightarrow> reachable (enqueue_all msg paths s ns)"
proof (induction ns arbitrary: s)
  case Nil then show ?case by (simp add: enqueue_all_def)
next
  case (Cons n ns)
  have "reachable (enqueue_number msg paths s n)" using Cons.prems by (rule r_push)
  then have "reachable (enqueue_all msg paths (enqueue_number msg paths s n) ns)" by (rule Cons.IH)
  then show ?case by (simp add: enqueue_all_def)
qed

lemma begin_reachable:
  assumes "reachable s"
  shows "reachable (snd (sendBulkMessages_queue_begin ensured s numbers msg paths))"
  using assms enqueue_all_reachable[OF assms, THEN r_call]
  by (auto simp: sendBulkMessages_queue_begin_def Let_def split: sum.splits option.splits)

lemma connected_server_reachable: "reachable connected_server"
  unfolding connected_server_def by (intro reachable.intros)

lemma three_reachable: "reachable (three_after_disconnect st)"
proof -
  have "reachable (snd three_accepted)"
    unfolding three_accepted_def using connected_server_reachable by (rule begin_reachable)
  then have "reachable (on_disconnected_queue True False (snd three_accepted))"
    by (rule composite_handlers_reachable(2))
  then show ?thesis unfolding three_after_disconnect_def by (intro r_delay r_task)
qed

lemmas three_defs = three_accepted_def three_after_disconnect_def
  sendBulkMessages_queue_begin_def enqueue_all_def enqueue_number_def
  processMessageQueue_call_def loop_head_def task_done_def delay_done_def
  on_disconnected_queue_def destroyClient_def initializeWhatsApp_def
  connected_server_def on_ready_def initial_server_def

lemma three_dropped: "dropped (three_after_disconnect st) 1 \<and> dropped (three_after_disconnect st) 2"
  by (simp add: three_defs dropped_def Let_def)

text \<open>
  Claim C2 at a batch of three recipients, accepted by the version with a queue on a
  connected server, when the client emits \<open>disconnected\<close> while the first task is in
  flight. The batch is accepted and its three tasks are queued. After the event, the end
  of the task in flight and the end of the loop, the server is idle in a reachable state,
  one promise of the three is settled, and the second and third task are dropped. In
  every state the server can get to from there they are still dropped and the handler is
  still suspended: two recipients get no outcome and no report is ever returned.
\<close>

theorem disconnect_leaves_batch_without_report:
  "fst three_accepted = Awaiting [0, 1, 2]
   \<and> map tid (messageQueue (snd three_accepted)) = [0, 1, 2]
   \<and> map tid (in_flight (loops (snd three_accepted))) = [0]
   \<and> messageQueue (three_after_disconnect st) = []
   \<and> loops (three_after_disconnect st) = []
   \<and> \<not> isProcessingQueue (three_after_disconnect st)
   \<and> settled (three_after_disconnect st) = [(0, st)]
   \<and> reachable (three_after_disconnect st)
   \<and> dropped (three_after_disconnect st) 1
   \<and> dropped (three_after_disconnect st) 2
   \<and> (reachable_from (three_after_disconnect st) s' \<longrightarrow>
        dropped s' 1 \<and> dropped s' 2
        \<and> sendBulkMessages_queue_resume s' [0, 1, 2] = Awaiting [0, 1, 2])"
proof -
  have e: "fst three_accepted = Awaiting [0, 1, 2]
   \<and> map tid (messageQueue (snd three_accepted)) = [0, 1, 2]
   \<and> map tid (in_flight (loops (snd three_accepted))) = [0]"
    by (simp add: three_defs Let_def upt_rec)
  have f: "messageQueue (three_after_disconnect st) = []
   \<and> loops (three_after_disconnect st) = []
   \<and> \<not> isProcessingQueue (three_after_disconnect st)
   \<and> settled (three_after_disconnect st) = [(0, st)]"
    by (simp add: three_defs Let_def)
  note d = three_dropped[of st]
  have g: "reachable_from (three_after_disconnect st) s' \<longrightarrow>
        dropped s' 1 \<and> dropped s' 2
        \<and> sendBulkMessages_queue_resume s' [0, 1, 2] = Awaiting [0, 1, 2]"
  proof
    assume r: "reachable_from (three_after_disconnect st) s'"
    have "dropped s' 1" using r d by (auto intro: dropped_forever)
    moreover have "dropped s' 2" using r d by (auto intro: dropped_forever)
    moreover have "sendBulkMessages_queue_resume s' [0, 1, 2] = Awaiting [0, 1, 2]"
      using d r by (intro dropped_never_answered[where i=1 and ?s0.0="three_after_disconnect st"]) simp_all
    ultimately show "dropped s' 1 \<and> dropped s' 2
        \<and> sendBulkMessages_queue_resume s' [0, 1, 2] = Awaiting [0, 1, 2]" by simp
  qed
  from e f d g three_reachable[of st] show ?thesis by simp
qed

text \<open>
  A state after the disconnection: a further batch has been pushed and the loop has
  started again; the first batch is still not answered.
\<close>

theorem disconnect_leaves_batch_without_report_witness:
  "reachable_from (three_after_disconnect (Rejected ''201'' (Thrown ''Session closed'')))
     (processMessageQueue_call (enqueue_number (Some ''again'') None
        (three_after_disconnect (Rejected ''201'' (Thrown ''Session closed''))) ''4''))
   \<and> sendBulkMessages_queue_resume
        (processMessageQueue_call (enqueue_number (Some ''again'') None
          (three_after_disconnect (Rejected ''201'' (Thrown ''Session closed''))) ''4''))
        [0, 1, 2] = Awaiting [0, 1, 2]"
proof -
  let ?F = "three_after_disconnect (Rejected ''201'' (Thrown ''Session closed''))"
  let ?S = "processMessageQueue_call (enqueue_number (Some ''again'') None ?F ''4'')"
  have r: "reachable_from ?F ?S" by (intro reachable_from.intros)
  from disconnect_leaves_batch_without_report[of "Rejected ''201'' (Thrown ''Session closed'')" ?S] r show ?thesis by simp
qed


section \<open>Recipients that are not registered\<close>

text \<open>
  Claim C4. When the driver answers \<open>false\<close> to \<open>isRegisteredUser\<close> for the recipient's
  chat id, the recipient fails with the reason "not registered" and the only driver call
  made for it is that check: no \<open>sendMessage\<close>, with text or with media. This holds in
  the three versions.
\<close>

theorem unregistered_recipient_is_never_sent_to:
  "(fst (isRegisteredUser D (drv w) (chatId_of (formatNumber num))) = Inr False \<longrightarrow>
      fst (process_number_loop D E msg paths w num) = Inl NotRegistered
      \<and> trace (snd (process_number_loop D E msg paths w num))
          = trace w @ [IsRegisteredUser (chatId_of (formatNumber num))]
      \<and> fst (process_number_stream D E msg paths w num) = Inl NotRegistered
      \<and> trace (snd (process_number_stream D E msg paths w num))
          = trace w @ [IsRegisteredUser (chatId_of (formatNumber num))])
   \<and> (fst (isRegisteredUser D (drv w) (chatId_of (number t))) = Inr False \<longrightarrow>
      fst (execute_task D E w t) = Rejected (number t) NotRegistered
      \<and> trace (snd (execute_task D E w t))
          = trace w @ [IsRegisteredUser (chatId_of (number t))])"
  by (auto simp: process_number_loop_def process_number_stream_def execute_task_def
        call_isRegisteredUser_def Let_def split: prod.splits)


text \<open>A driver that knows nobody, one recipient and one task.\<close>

theorem unregistered_recipient_is_never_sent_to_witness:
  "fst (isRegisteredUser (driver_registered []) (drv fresh_world)
          (chatId_of (formatNumber ''100000002''))) = Inr False
   \<and> fst (process_number_loop (driver_registered []) (files_of_type ''image/png'')
            (Some ''hi'') (Some [''a.png'']) fresh_world ''100000002'') = Inl NotRegistered
   \<and> trace (snd (process_number_loop (driver_registered []) (files_of_type ''image/png'')
            (Some ''hi'') (Some [''a.png'']) fresh_world ''100000002''))
        = [IsRegisteredUser ''20100000002@c.us'']
   \<and> fst (execute_task (driver_registered []) (files_of_type ''image/png'') fresh_world
            \<lparr> tid = 0, number = ''20100000002'', message = Some ''hi'',
              mediaPaths = Some [''a.png''] \<rparr>)
        = Rejected ''20100000002'' NotRegistered
   \<and> trace (snd (execute_task (driver_registered []) (files_of_type ''image/png'') fresh_world
            \<lparr> tid = 0, number = ''20100000002'', message = Some ''hi'',
              mediaPaths = Some [''a.png''] \<rparr>))
        = [IsRegisteredUser ''20100000002@c.us'']"
proof -
  have f: "formatNumber ''100000002'' = ''20100000002''"
    by (simp add: formatNumber_def stripNonDigits_def isDigit_def startsWith_def Let_def)
  have h1: "fst (isRegisteredUser (driver_registered []) (drv fresh_world)
          (chatId_of (formatNumber ''100000002''))) = Inr False"
    by (simp add: driver_registered_def)
  have h2: "fst (isRegisteredUser (driver_registered []) (drv fresh_world)
          (chatId_of (number \<lparr> tid = 0, number = ''20100000002'', message = Some ''hi'',
              mediaPaths = Some [''a.png''] \<rparr>))) = Inr False"
    by (simp add: driver_registered_def)
  show ?thesis
    using h1 h2 f
      unregistered_recipient_is_never_sent_to[of "driver_registered []" fresh_world
        "''100000002''" "files_of_type ''image/png''" "Some ''hi''" "Some [''a.png'']"
        "\<lparr> tid = 0, number = ''20100000002'', message = Some ''hi'',
              mediaPaths = Some [''a.png''] \<rparr>"]
    by (simp add: fresh_world_def chatId_of_def)
qed



section \<open>Captions of attachments\<close>

lemma send_media_queue_calls:
  assumes "send_media_queue D E msg w chatId p = (r, w')"
  shows "\<exists>ks. trace w' = trace w @ ks \<and> list_all (media_send_with chatId msg) ks
            \<and> (r = Inr () \<longrightarrow> length ks = 1)"
  using assms
  by (auto simp: send_media_queue_def call_sendMessage_def Let_def
        split: if_splits option.splits sum.splits prod.splits)

lemma send_all_media_queue_calls:
  "send_all_media_queue D E msg w chatId ps = (r, w') \<Longrightarrow>
   \<exists>ks. trace w' = trace w @ ks \<and> list_all (media_send_with chatId msg) ks
            \<and> (r = Inr () \<longrightarrow> length ks = length ps)"
proof (induction ps arbitrary: w)
  case Nil then show ?case by auto
next
  case (Cons p ps)
  obtain r1 w1 where s1: "send_media_queue D E msg w chatId p = (r1, w1)"
    by (cases "send_media_queue D E msg w chatId p") auto
  from send_media_queue_calls[OF s1] obtain k1 where
    k1: "trace w1 = trace w @ k1" "list_all (media_send_with chatId msg) k1"
        "r1 = Inr () \<longrightarrow> length k1 = 1" by blast
  show ?case
  proof (cases r1)
    case (Inl e)
    with Cons.prems s1 have "r = Inl e" "w' = w1" by auto
    with k1 show ?thesis by auto
  next
    case (Inr u)
    with Cons.prems s1 have "send_all_media_queue D E msg w1 chatId ps = (r, w')" by auto
    from Cons.IH[OF this] obtain k2 where
      k2: "trace w' = trace w1 @ k2" "list_all (media_send_with chatId msg) k2"
          "r = Inr () \<longrightarrow> length k2 = length ps" by blast
    have "trace w' = trace w @ (k1 @ k2)" using k1 k2 by simp
    moreover have "list_all (media_send_with chatId msg) (k1 @ k2)" using k1 k2 by simp
    moreover have "r = Inr () \<longrightarrow> length (k1 @ k2) = length (p # ps)" using k1 k2 Inr by simp
    ultimately show ?thesis by blast
  qed
qed

lemma send_media_stream_calls:
  assumes "send_media_stream D E msg w chatId p = (r, w')"
  shows "\<exists>ks. trace w' = trace w @ ks \<and> list_all (media_send_with chatId msg) ks
            \<and> (r = Inr () \<longrightarrow> length ks = 1)"
  using assms
  by (auto simp: send_media_stream_def call_sendMessage_def Let_def
        split: if_splits option.splits sum.splits prod.splits)

lemma send_all_media_stream_calls:
  "send_all_media_stream D E msg w chatId ps = (r, w') \<Longrightarrow>
   \<exists>ks. trace w' = trace w @ ks \<and> list_all (media_send_with chatId msg) ks
            \<and> (r = Inr () \<longrightarrow> length ks = length ps)"
proof (induction ps arbitrary: w)
  case Nil then show ?case by auto
next
  case (Cons p ps)
  obtain r1 w1 where s1: "send_media_stream D E msg w chatId p = (r1, w1)"
    by (cases "send_media_stream D E msg w chatId p") auto
  from send_media_stream_calls[OF s1] obtain k1 where
    k1: "trace w1 = trace w @ k1" "list_all (media_send_with chatId msg) k1"
        "r1 = Inr () \<longrightarrow> length k1 = 1" by blast
  show ?case
  proof (cases r1)
    case (Inl e)
    with Cons.prems s1 have "r = Inl (MediaFailed e)" "w' = w1" by auto
    with k1 show ?thesis by auto
  next
    case (Inr u)
    with Cons.prems s1 have "send_all_media_stream D E msg w1 chatId ps = (r, w')" by auto
    from Cons.IH[OF this] obtain k2 where
      k2: "trace w' = trace w1 @ k2" "list_all (media_send_with chatId msg) k2"
          "r = Inr () \<longrightarrow> length k2 = length ps" by blast
    have "trace w' = trace w @ (k1 @ k2)" using k1 k2 by simp
    moreover have "list_all (media_send_with chatId msg) (k1 @ k2)" using k1 k2 by simp
    moreover have "r = Inr () \<longrightarrow> length (k1 @ k2) = length (p # ps)" using k1 k2 Inr by simp
    ultimately show ?thesis by blast
  qed
qed

lemma execute_task_media:
  assumes "has_media (mediaPaths t)" "execute_task D E w t = (st, w')"
  shows "\<exists>ks. new_calls w w' = IsRegisteredUser (chatId_of (number t)) # ks
           \<and> list_all (media_send_with (chatId_of (number t)) (message t)) ks
           \<and> (st = Fulfilled (number t) \<longrightarrow> length ks = length (media_list (mediaPaths t)))"
proof -
  let ?c = "chatId_of (number t)"
  obtain r1 w1 where c: "call_isRegisteredUser D w ?c = (r1, w1)"
    by (cases "call_isRegisteredUser D w ?c") auto
  then have t1: "trace w1 = trace w @ [IsRegisteredUser ?c]"
    by (auto simp: call_isRegisteredUser_def split: prod.splits)
  show ?thesis
  proof (cases "r1 = Inr True")
    case False
    then have "w' = w1 \<and> st \<noteq> Fulfilled (number t)"
      using assms c by (cases r1) (auto simp: execute_task_def Let_def split: bool.splits)
    then show ?thesis using t1 by (simp add: new_calls_def)
  next
    case True
    obtain r2 w2 where m: "send_all_media_queue D E (message t) w1 ?c (media_list (mediaPaths t)) = (r2, w2)"
      by (cases "send_all_media_queue D E (message t) w1 ?c (media_list (mediaPaths t))") auto
    from send_all_media_queue_calls[OF m] obtain ks where
      ks: "trace w2 = trace w1 @ ks" "list_all (media_send_with ?c (message t)) ks"
          "r2 = Inr () \<longrightarrow> length ks = length (media_list (mediaPaths t))" by blast
    have "w' = w2 \<and> (st = Fulfilled (number t) \<longrightarrow> r2 = Inr ())"
      using assms c True m by (cases r2) (auto simp: execute_task_def Let_def)
    then show ?thesis using t1 ks by (auto simp: new_calls_def)
  qed
qed

lemma process_number_stream_media:
  assumes "has_media paths" "process_number_stream D E msg paths w num = (r, w')"
  shows "\<exists>ks. new_calls w w' = IsRegisteredUser (chatId_of (formatNumber num)) # ks
           \<and> list_all (media_send_with (chatId_of (formatNumber num)) msg) ks
           \<and> (r = Inr (formatNumber num) \<longrightarrow> length ks = length (media_list paths))"
proof -
  let ?c = "chatId_of (formatNumber num)"
  obtain r1 w1 where c: "call_isRegisteredUser D w ?c = (r1, w1)"
    by (cases "call_isRegisteredUser D w ?c") auto
  then have t1: "trace w1 = trace w @ [IsRegisteredUser ?c]"
    by (auto simp: call_isRegisteredUser_def split: prod.splits)
  show ?thesis
  proof (cases "r1 = Inr True")
    case False
    then have "w' = w1 \<and> r \<noteq> Inr (formatNumber num)"
      using assms c by (cases r1) (auto simp: process_number_stream_def Let_def split: bool.splits)
    then show ?thesis using t1 by (simp add: new_calls_def)
  next
    case True
    obtain r2 w2 where m: "send_all_media_stream D E msg w1 ?c (media_list paths) = (r2, w2)"
      by (cases "send_all_media_stream D E msg w1 ?c (media_list paths)") auto
    from send_all_media_stream_calls[OF m] obtain ks where
      ks: "trace w2 = trace w1 @ ks" "list_all (media_send_with ?c msg) ks"
          "r2 = Inr () \<longrightarrow> length ks = length (media_list paths)" by blast
    have "w' = w2 \<and> (r = Inr (formatNumber num) \<longrightarrow> r2 = Inr ())"
      using assms c True m by (cases r2) (auto simp: process_number_stream_def Let_def)
    then show ?thesis using t1 ks by (auto simp: new_calls_def)
  qed
qed

text \<open>
  Claim C9, as the code has it. When a task has attachments, the driver calls made for it
  are the registration check followed by one \<open>sendMessage\<close> per attachment sent, each
  with \<open>sendMediaAsDocument\<close> set exactly when the MIME type starts with \<open>video/\<close> and
  each with \<open>caption\<close> equal to the task's text: the caption goes with every attachment,
  not with the first one only. This is so in the version with a queue and in the unnamed
  version; a task that succeeds has sent all its attachments.
\<close>

theorem every_attachment_carries_the_caption:
  "(has_media (mediaPaths t) \<and> execute_task D E w t = (st, w') \<longrightarrow>
      (\<exists>ks. new_calls w w' = IsRegisteredUser (chatId_of (number t)) # ks
           \<and> list_all (media_send_with (chatId_of (number t)) (message t)) ks
           \<and> (st = Fulfilled (number t) \<longrightarrow> length ks = length (media_list (mediaPaths t)))))
   \<and> (has_media paths \<and> process_number_stream D E msg paths w num = (r, w2) \<longrightarrow>
      (\<exists>ks. new_calls w w2 = IsRegisteredUser (chatId_of (formatNumber num)) # ks
           \<and> list_all (media_send_with (chatId_of (formatNumber num)) msg) ks
           \<and> (r = Inr (formatNumber num) \<longrightarrow> length ks = length (media_list paths))))"
  using execute_task_media[of t D E w st w'] process_number_stream_media[of paths D E msg w num r w2]
  by blast


lemmas fixture_defs = driver_registered_def files_of_type_def fresh_world_def
  connected_server_def on_ready_def initializeWhatsApp_def initial_server_def

lemmas send_defs = execute_task_def send_all_media_queue.simps send_media_queue_def
  call_isRegisteredUser_def call_sendMessage_def chatId_of_def has_media_def media_list_def
  isVideo_def startsWith_def truthy_def truthy_text_def send_text_def
  process_number_stream_def send_media_stream_def process_number_loop_def send_media_loop_def

text \<open>
  A task with the text \<open>hi\<close> and two video attachments: the second attachment is sent
  with the caption \<open>hi\<close> as well.
\<close>

theorem second_attachment_carries_the_caption:
  "execute_task (driver_registered [''20100000002@c.us'']) (files_of_type ''video/mp4'')
     fresh_world
     \<lparr> tid = 0, number = ''20100000002'', message = Some ''hi'',
       mediaPaths = Some [''a.mp4'', ''b.mp4''] \<rparr>
   = (Fulfilled ''20100000002'',
      \<lparr> drv = (),
        trace = [IsRegisteredUser ''20100000002@c.us'',
                 SendMessage ''20100000002@c.us'' (MessageMedia ''video/mp4'' ''QUJD'' ''a.mp4'')
                   (Some \<lparr> sendMediaAsDocument = True, caption = Some ''hi'' \<rparr>),
                 SendMessage ''20100000002@c.us'' (MessageMedia ''video/mp4'' ''QUJD'' ''b.mp4'')
                   (Some \<lparr> sendMediaAsDocument = True, caption = Some ''hi'' \<rparr>)] \<rparr>)"
  by (simp add: fixture_defs send_defs Let_def)

text \<open>A task and a recipient with the text \<open>hi\<close> and two images.\<close>

theorem every_attachment_carries_the_caption_witness:
  "has_media (Some [''a.png'', ''b.png''])
   \<and> (\<exists>st w'. execute_task (driver_registered [''20100000002@c.us'']) (files_of_type ''image/png'')
          fresh_world
          \<lparr> tid = 0, number = ''20100000002'', message = Some ''hi'',
            mediaPaths = Some [''a.png'', ''b.png''] \<rparr> = (st, w')
        \<and> st = Fulfilled ''20100000002''
        \<and> (\<exists>ks. new_calls fresh_world w' = IsRegisteredUser ''20100000002@c.us'' # ks
              \<and> list_all (media_send_with ''20100000002@c.us'' (Some ''hi'')) ks
              \<and> length ks = 2))
   \<and> (\<exists>r w2. process_number_stream (driver_registered [''20100000002@c.us''])
          (files_of_type ''image/png'') (Some ''hi'') (Some [''a.png'', ''b.png''])
          fresh_world ''100000002'' = (r, w2)
        \<and> r = Inr ''20100000002''
        \<and> (\<exists>ks. new_calls fresh_world w2 = IsRegisteredUser ''20100000002@c.us'' # ks
              \<and> list_all (media_send_with ''20100000002@c.us'' (Some ''hi'')) ks
              \<and> length ks = 2))"
proof -
  let ?D = "driver_registered [''20100000002@c.us'']"
  let ?E = "files_of_type ''image/png''"
  let ?t = "\<lparr> tid = 0, number = ''20100000002'', message = Some ''hi'',
            mediaPaths = Some [''a.png'', ''b.png''] \<rparr>"
  have h: "has_media (Some [''a.png'', ''b.png''])" by (simp add: has_media_def)
  have f: "formatNumber ''100000002'' = ''20100000002''"
    by (simp add: formatNumber_def stripNonDigits_def isDigit_def startsWith_def Let_def)
  obtain st w' where e: "execute_task ?D ?E fresh_world ?t = (st, w')"
    by (cases "execute_task ?D ?E fresh_world ?t") auto
  have st: "st = Fulfilled ''20100000002''"
    using e by (simp add: fixture_defs send_defs Let_def)
  obtain r w2 where p: "process_number_stream ?D ?E (Some ''hi'') (Some [''a.png'', ''b.png''])
          fresh_world ''100000002'' = (r, w2)"
    by (cases "process_number_stream ?D ?E (Some ''hi'') (Some [''a.png'', ''b.png''])
          fresh_world ''100000002''") auto
  have r: "r = Inr ''20100000002''"
    using p by (simp add: f fixture_defs send_defs Let_def)
  show ?thesis
    using h e st p r f
      every_attachment_carries_the_caption[of ?t ?D ?E fresh_world st w' "Some [''a.png'', ''b.png'']" "Some ''hi''" "''100000002''" r w2]
    by (simp add: chatId_of_def media_list_def numeral_2_eq_2)
qed

section \<open>The worked example of a batch\<close>

lemmas handler_defs = sendBulkMessages_loop_def sendBulkMessages_stream_def
  sendBulkMessages_queue_def sendBulkMessages_queue_resume_def processMessageQueue_run_def enqueue_all_def enqueue_number_def
  empty_results_def formatNumber_def stripNonDigits_def isDigit_def

text \<open>
  The batch \<open>["0100000001", "100000002"]\<close> with the text \<open>hi\<close> and no attachments, the
  driver knowing only the first normalised address. The first address is not
  \<open>20100000001\<close>, and the report is not
  \<open>{ delivered: ["20100000001"], failed: { "20100000002": not registered } }\<close>, in the
  first version and in the version with a queue.
\<close>

theorem example_batch_is_not_reported_as_20100000001:
  "formatNumber ''0100000001'' \<noteq> ''20100000001''
   \<and> fst (sendBulkMessages_loop (driver_registered [chatId_of (formatNumber ''0100000001'')])
          (files_of_type ''image/png'') connected_server fresh_world
          (Some [''0100000001'', ''100000002'']) (Some ''hi'') (Some []))
       \<noteq> Json \<lparr> success = [''20100000001''], failed = [(''20100000002'', NotRegistered)] \<rparr>
   \<and> fst (sendBulkMessages_queue (driver_registered [chatId_of (formatNumber ''0100000001'')])
          (files_of_type ''image/png'') (Inr True) connected_server fresh_world
          (Some [''0100000001'', ''100000002'']) (Some ''hi'') (Some []))
       \<noteq> Json \<lparr> success = [''20100000001''], failed = [(''20100000002'', NotRegistered)] \<rparr>"
  by (simp add: fixture_defs send_defs handler_defs Let_def)

text \<open>
  Claim C5, as the code has it. The prefix is put in front of the digits as they are, so
  \<open>0100000001\<close> becomes \<open>200100000001\<close> (the leading zero stays) and \<open>100000002\<close>
  becomes \<open>20100000002\<close>. The success list holds \<open>200100000001\<close>. The failed entry
  holds the recipient as it was submitted, \<open>100000002\<close>, in the two versions with a loop,
  and the normalised \<open>20100000002\<close> in the version with a queue.
\<close>

theorem example_batch_report:
  "formatNumber ''0100000001'' = ''200100000001''
   \<and> formatNumber ''100000002'' = ''20100000002''
   \<and> fst (sendBulkMessages_loop (driver_registered [chatId_of (formatNumber ''0100000001'')])
          (files_of_type ''image/png'') connected_server fresh_world
          (Some [''0100000001'', ''100000002'']) (Some ''hi'') (Some []))
       = Json \<lparr> success = [''200100000001''], failed = [(''100000002'', NotRegistered)] \<rparr>
   \<and> fst (sendBulkMessages_stream (driver_registered [chatId_of (formatNumber ''0100000001'')])
          (files_of_type ''image/png'') connected_server fresh_world
          (Some [''0100000001'', ''100000002'']) (Some ''hi'') (Some []))
       = Json \<lparr> success = [''200100000001''], failed = [(''100000002'', NotRegistered)] \<rparr>
   \<and> fst (sendBulkMessages_queue (driver_registered [chatId_of (formatNumber ''0100000001'')])
          (files_of_type ''image/png'') (Inr True) connected_server fresh_world
          (Some [''0100000001'', ''100000002'']) (Some ''hi'') (Some []))
       = Json \<lparr> success = [''200100000001''], failed = [(''20100000002'', NotRegistered)] \<rparr>"
  by (simp add: fixture_defs send_defs handler_defs Let_def)

section \<open>Validation of a batch\<close>

text \<open>
  Claim C3 at a batch with one recipient, no text and no attachments, sent to the version
  with a queue on a ready client: no validation error is answered. One task is created,
  the driver is asked whether the recipient is registered, nothing is sent, and the
  recipient is reported as a success.
\<close>

theorem queue_version_accepts_batch_without_content:
  "fst (sendBulkMessages_queue (driver_registered [''200100000001@c.us''])
          (files_of_type ''image/png'') (Inr True) connected_server fresh_world
          (Some [''0100000001'']) None (Some []))
       = Json \<lparr> success = [''200100000001''], failed = [] \<rparr>
   \<and> enqueued (fst (snd (sendBulkMessages_queue (driver_registered [''200100000001@c.us''])
          (files_of_type ''image/png'') (Inr True) connected_server fresh_world
          (Some [''0100000001'']) None (Some [])))) = [0]
   \<and> trace (snd (snd (sendBulkMessages_queue (driver_registered [''200100000001@c.us''])
          (files_of_type ''image/png'') (Inr True) connected_server fresh_world
          (Some [''0100000001'']) None (Some []))))
       = [IsRegisteredUser ''200100000001@c.us'']"
  by (simp add: fixture_defs send_defs handler_defs Let_def)

text \<open>
  The first version of \<open>server.js\<close> validates both conditions before the loop: on a
  connected server a batch without recipients, or with neither text nor attachments, is
  answered with status 400 and no driver call is made.
\<close>

lemma loop_version_validates_batch:
  assumes "client s \<noteq> None" "connectionStatus s = Connected"
    "numbers = None \<or> numbers = Some [] \<or> (\<not> truthy msg \<and> \<not> has_media paths)"
  shows "\<exists>e. sendBulkMessages_loop D E s w numbers msg paths = (Status400 e, w)"
  using assms by (auto simp: sendBulkMessages_loop_def split: option.splits)

section \<open>A disconnection while tasks are queued\<close>

text \<open>
  Claim C1 at three tasks pushed on a connected server, the first one in flight when the
  \<open>disconnected\<close> event arrives. The handler empties the queue and settles no promise.
  When the task in flight has finished with whatever outcome \<open>st\<close> and the loop has
  ended, the promise of the first task is the only one settled: the promises of the
  second and third task stay pending, and \<open>Promise.allSettled\<close> of the batch does not
  yield.
\<close>

theorem disconnect_drops_queued_tasks_unsettled:
  "messageQueue (on_disconnected_queue True False (processMessageQueue_call
      (enqueue_all (Some ''hi'') None connected_server [''1'', ''2'', ''3'']))) = []
   \<and> settled (on_disconnected_queue True False (processMessageQueue_call
      (enqueue_all (Some ''hi'') None connected_server [''1'', ''2'', ''3'']))) = []
   \<and> enqueued (on_disconnected_queue True False (processMessageQueue_call
      (enqueue_all (Some ''hi'') None connected_server [''1'', ''2'', ''3'']))) = [0, 1, 2]
   \<and> map tid (in_flight (loops (on_disconnected_queue True False (processMessageQueue_call
      (enqueue_all (Some ''hi'') None connected_server [''1'', ''2'', ''3''])))))  = [0]
   \<and> settled (delay_done 0 (task_done 0 st (on_disconnected_queue True False
      (processMessageQueue_call
        (enqueue_all (Some ''hi'') None connected_server [''1'', ''2'', ''3'']))))) = [(0, st)]
   \<and> loops (delay_done 0 (task_done 0 st (on_disconnected_queue True False
      (processMessageQueue_call
        (enqueue_all (Some ''hi'') None connected_server [''1'', ''2'', ''3'']))))) = []
   \<and> allSettled (settled (delay_done 0 (task_done 0 st (on_disconnected_queue True False
      (processMessageQueue_call
        (enqueue_all (Some ''hi'') None connected_server [''1'', ''2'', ''3'']))))))
        [0, 1, 2] = None"
  by (simp add: fixture_defs handler_defs on_disconnected_queue_def destroyClient_def
        processMessageQueue_call_def loop_head_def task_done_def delay_done_def Let_def)

section \<open>Initialisation is not guarded by the state\<close>

text \<open>
  Claim C6, as the code has it. \<open>initializeWhatsApp\<close> does not look at the connection
  state: every call, in any state, constructs exactly one new client, makes it the
  current one and sets the state to \<open>initializing\<close> (to \<open>disconnected\<close> when
  \<open>client.initialize()\<close> throws at once).
\<close>

theorem initializeWhatsApp_always_constructs_a_client:
  "constructed (initializeWhatsApp init_throws s) = Suc (constructed s)
   \<and> client (initializeWhatsApp init_throws s) = Some (constructed s)
   \<and> connectionStatus (initializeWhatsApp init_throws s)
       = (if init_throws then Disconnected else Initializing)"
  by (simp add: initializeWhatsApp_def Let_def)

text \<open>
  Two calls in succession while the state is \<open>waiting-for-qr\<close>: the first call is not a
  no-op, and after the two calls three clients have been constructed instead of one.
\<close>

theorem initializeWhatsApp_twice_while_waiting_for_qr:
  "connectionStatus (on_qr ''QR'' (initializeWhatsApp False initial_server)) = WaitingForQr
   \<and> constructed (on_qr ''QR'' (initializeWhatsApp False initial_server)) = 1
   \<and> initializeWhatsApp False (on_qr ''QR'' (initializeWhatsApp False initial_server))
       \<noteq> on_qr ''QR'' (initializeWhatsApp False initial_server)
   \<and> constructed (initializeWhatsApp False (initializeWhatsApp False
        (on_qr ''QR'' (initializeWhatsApp False initial_server)))) = 3"
  by (simp add: initializeWhatsApp_def on_qr_def initial_server_def Let_def)

section \<open>The pairing code\<close>

text \<open>
  After \<open>qr\<close> and then \<open>authenticated\<close>, \<open>GET /status\<close> reports the state
  \<open>authenticating\<close> together with the pairing code.
\<close>

theorem pairing_code_survives_authenticated:
  "getStatus (on_authenticated (on_qr ''QR'' (initializeWhatsApp False initial_server)))
     = (Authenticating, Some ''QR'')"
  by (simp add: getStatus_def on_authenticated_def initializeWhatsApp_def on_qr_def
        initial_server_def Let_def)

lemma connected_no_qr: "reachable s \<Longrightarrow> connectionStatus s = Connected \<Longrightarrow> qrCodeData s = None"
proof (induction rule: reachable.induct)
  case r_init then show ?case by (simp add: initial_server_def)
next
  case (r_initialize s b) then show ?case by (simp add: initializeWhatsApp_def Let_def split: if_splits)
next
  case (r_destroy s ok) then show ?case by (simp add: destroyClient_def Let_def)
next
  case (r_qr s q) then show ?case by (simp add: on_qr_def)
next
  case (r_loading s p) then show ?case by (simp add: on_loading_screen_def)
next
  case (r_ready s) then show ?case by (simp add: on_ready_def)
next
  case (r_authenticated s) then show ?case by (simp add: on_authenticated_def)
next
  case (r_failed s) then show ?case by (simp add: on_auth_failure_queue_def)
next
  case (r_push s msg paths num) then show ?case by (simp add: enqueue_number_def Let_def)
next
  case (r_call s) then show ?case
    by (simp add: processMessageQueue_call_def loop_head_def split: if_splits list.splits)
next
  case (r_task s i st) then show ?case
    by (simp add: task_done_def split: if_splits activation.splits)
next
  case (r_delay s i) then show ?case
    by (simp add: delay_done_def loop_head_def split: if_splits activation.splits list.splits)
qed simp_all

text \<open>
  Claim C7, as the code has it. The \<open>qr\<close> handler stores the pairing code and sets the
  state \<open>waiting-for-qr\<close>. The \<open>authenticated\<close> handler sets the state and leaves the
  code as it is. The code is cleared by the \<open>ready\<close> handler and by \<open>destroyClient\<close>;
  hence in every reachable state with the status \<open>connected\<close> the code is null.
\<close>

theorem pairing_code_cleared_by_ready_and_destroy:
  "getStatus (on_qr qr s) = (WaitingForQr, Some qr)
   \<and> getStatus (on_authenticated s) = (Authenticating, qrCodeData s)
   \<and> getStatus (on_ready s) = (Connected, None)
   \<and> getStatus (destroyClient destroy_ok s) = (Disconnected, None)
   \<and> (reachable s \<and> connectionStatus s = Connected \<longrightarrow> qrCodeData s = None)"
  using connected_no_qr[of s]
  by (simp add: getStatus_def on_qr_def on_authenticated_def on_ready_def destroyClient_def Let_def)

text \<open>A reachable connected state: \<open>qr\<close>, \<open>authenticated\<close>, \<open>ready\<close>.\<close>

theorem pairing_code_cleared_by_ready_and_destroy_witness:
  "reachable (on_ready (on_authenticated (on_qr ''QR'' (initializeWhatsApp False initial_server))))
   \<and> getStatus (on_ready (on_authenticated (on_qr ''QR'' (initializeWhatsApp False initial_server))))
      = (Connected, None)"
proof -
  let ?S = "on_ready (on_authenticated (on_qr ''QR'' (initializeWhatsApp False initial_server)))"
  have r: "reachable ?S" by (intro reachable.intros)
  have c: "connectionStatus ?S = Connected" by (simp add: on_ready_def)
  from pairing_code_cleared_by_ready_and_destroy[of "''QR''" ?S True] r c show ?thesis by (simp add: getStatus_def)
qed


end
